theory Spec2Isabelle
  imports Complex_Main "HOL-Library.Log_Nat"
begin

section \<open>Voice activity detection of audio_segment.py\<close>

text \<open>
  A shallow embedding of \<^verbatim>\<open>src/audio_segment.py\<close>: \<^verbatim>\<open>fill_gap\<close>,
  \<^verbatim>\<open>VoiceActivityDetector.detect\<close> and \<^verbatim>\<open>VoiceActivityDetector.is_test_noise\<close>.

  Conventions of the embedding.
  \<^item> A NumPy boolean array is a \<open>bool list\<close>, an array of floats a \<open>rat list\<close>. A finite
    Python float is the rational number it denotes.
  \<^item> In the two expressions that decide the window length and the radius of the gap
    filler, \<^verbatim>\<open>int(audio.sample_rate / audio.hop_length * window_sec)\<close> and
    \<^verbatim>\<open>int(silence_sec / window_sec / 2)\<close>, every operation is rounded to the nearest double,
    as the source rounds it (\<open>py_float\<close> below). The other float operations (the mean of a
    window, the share in \<^verbatim>\<open>is_test_noise\<close>, the conversion to seconds) are exact here.
  \<^item> A numeric argument of \<^verbatim>\<open>detect\<close> is a float or an int of magnitude at most \<open>2^53\<close>,
    which is a double as well; a rational value that is no double stands for the decimal
    literal, that is for the double nearest to it.
  \<^item> A Python \<open>int\<close> is an \<open>int\<close>; an array index is a \<open>nat\<close>.
  \<^item> Every exception the source can raise is a value \<open>Inl e\<close> of \<open>py_error + 'a\<close>; the
    operations of NumPy and pandas the source calls are modelled with the failures they
    have on the arguments the source can hand them.
\<close>

subsection \<open>Python built-ins\<close>

datatype py_error = ValueError | ZeroDivisionError | AssertionError | OverflowError

text \<open>\<^verbatim>\<open>int(x)\<close> on a float: truncation toward zero.\<close>

definition py_int :: "rat \<Rightarrow> int" where
  "py_int x = (if 0 \<le> x then floor x else ceiling x)"

text \<open>
  A Python float is an IEEE 754 double. \<open>nearest_double x\<close> is the double nearest to \<open>x\<close>,
  a tie going to the even significand: a multiple of \<open>2^e\<close> where \<open>e\<close> leaves a significand
  of 53 bits, and is never below \<open>-1074\<close>, the exponent of the subnormal doubles.
  \<open>rat_ilog2 x\<close> is the integer \<open>d\<close> with \<open>2^d \<le> |x| < 2^(d + 1)\<close>.
\<close>

definition pow2 :: "int \<Rightarrow> rat" where
  "pow2 e = (if 0 \<le> e then 2 ^ nat e else 1 / 2 ^ nat (- e))"

definition rat_ilog2 :: "rat \<Rightarrow> int" where
  "rat_ilog2 x =
     (let (p, q) = quotient_of \<bar>x\<bar>; d = bitlen p - bitlen q
      in if pow2 d \<le> \<bar>x\<bar> then d else d - 1)"

definition round_half_even :: "rat \<Rightarrow> int" where
  "round_half_even m =
     (let f = floor m; d = m - of_int f
      in if d < 1 / 2 then f else if 1 / 2 < d then f + 1 else if even f then f else f + 1)"

definition nearest_double :: "rat \<Rightarrow> rat" where
  "nearest_double x =
     (if x = 0 then 0
      else let e = max (rat_ilog2 x - 52) (- 1074)
           in of_int (round_half_even (x / pow2 e)) * pow2 e)"

text \<open>
  The result of a float operation with the exact result \<open>x\<close>, and the conversion of an int
  or of a decimal literal \<open>x\<close> to a float. From \<open>|x| = 2^1024 - 2^970\<close> on, the nearest double
  is an infinity. The division of two ints and the conversion of an int raise
  \<^verbatim>\<open>OverflowError\<close> there. An operation on floats yields the infinity; in both expressions
  of \<^verbatim>\<open>detect\<close> the only operations that can follow are the division by 2, which keeps it,
  and \<^verbatim>\<open>int\<close>, which refuses it with \<^verbatim>\<open>OverflowError\<close>. So an overflow ends in
  \<^verbatim>\<open>OverflowError\<close> in every case, and \<open>py_float\<close> gives it at the operation that overflows.
\<close>

definition float_overflow :: rat where
  "float_overflow = 2 ^ 1024 - 2 ^ 970"

definition py_float :: "rat \<Rightarrow> py_error + rat" where
  "py_float x = (if float_overflow \<le> \<bar>x\<bar> then Inl OverflowError else Inr (nearest_double x))"

text \<open>
  \<^verbatim>\<open>a / b\<close> on two ints or two floats: true division, \<^verbatim>\<open>ZeroDivisionError\<close> on a zero
  divisor, and else the exact quotient rounded to a double.
\<close>

definition py_truediv :: "rat \<Rightarrow> rat \<Rightarrow> py_error + rat" where
  "py_truediv a b = (if b = 0 then Inl ZeroDivisionError else py_float (a / b))"

text \<open>
  \<^verbatim>\<open>a % b\<close> on integers: the result has the sign of the divisor, as \<open>mod\<close> on \<open>int\<close> has;
  \<^verbatim>\<open>ZeroDivisionError\<close> on a zero divisor.
\<close>

definition py_mod :: "int \<Rightarrow> int \<Rightarrow> py_error + int" where
  "py_mod a b = (if b = 0 then Inl ZeroDivisionError else Inr (a mod b))"

text \<open>
  \<^verbatim>\<open>xs[lo:hi]\<close>: a negative bound counts from the end, and both bounds are clamped to the
  sequence.
\<close>

definition py_slice :: "'a list \<Rightarrow> int \<Rightarrow> int \<Rightarrow> 'a list" where
  "py_slice xs lo hi =
     (let n = int (length xs);
          lo' = (if lo < 0 then max (lo + n) 0 else min lo n);
          hi' = (if hi < 0 then max (hi + n) 0 else min hi n)
      in take (nat hi' - nat lo') (drop (nat lo') xs))"

subsection \<open>NumPy operations\<close>

text \<open>\<^verbatim>\<open>np.ones(n)\<close>: a negative dimension is refused with \<^verbatim>\<open>ValueError\<close>.\<close>

definition np_ones :: "int \<Rightarrow> py_error + rat list" where
  "np_ones n = (if n < 0 then Inl ValueError else Inr (replicate (nat n) 1))"

text \<open>
  \<^verbatim>\<open>np.convolve(a, v)\<close> in its default mode \<^verbatim>\<open>full\<close>: the result has
  \<open>length a + length v - 1\<close> entries, entry \<open>i\<close> being the sum of \<open>a[j] * v[i - j]\<close> over
  the \<open>j\<close> for which both indices are in range. An empty argument is refused with
  \<^verbatim>\<open>ValueError\<close>.
\<close>

definition np_convolve :: "rat list \<Rightarrow> rat list \<Rightarrow> py_error + rat list" where
  "np_convolve a v =
     (if a = [] \<or> v = [] then Inl ValueError
      else Inr (map (\<lambda>i. \<Sum>j\<leftarrow>[0..<length a].
                        if j \<le> i \<and> i - j < length v then a ! j * v ! (i - j) else 0)
                  [0..<length a + length v - 1]))"

text \<open>A boolean array used as a number array: \<^verbatim>\<open>False\<close> is 0 and \<^verbatim>\<open>True\<close> is 1.\<close>

definition as_num :: "bool list \<Rightarrow> rat list" where
  "as_num a = map of_bool a"

text \<open>\<^verbatim>\<open>np.pad(a, (0, n))\<close> on a boolean array: \<open>n\<close> times \<^verbatim>\<open>False\<close> after \<open>a\<close>; a negative
  width is refused with \<^verbatim>\<open>ValueError\<close>.\<close>

definition np_pad :: "bool list \<Rightarrow> int \<Rightarrow> py_error + bool list" where
  "np_pad a n = (if n < 0 then Inl ValueError else Inr (a @ replicate (nat n) False))"

text \<open>
  \<^verbatim>\<open>a.reshape(-1, w)\<close>: the rows of width \<open>w\<close>. A negative \<open>w\<close> is a second unknown
  dimension, \<open>w = 0\<close> leaves the row count undetermined, and a size that \<open>w\<close> does not
  divide does not fit: each is a \<^verbatim>\<open>ValueError\<close>.
\<close>

definition np_reshape_rows :: "'a list \<Rightarrow> int \<Rightarrow> py_error + 'a list list" where
  "np_reshape_rows a w =
     (if w \<le> 0 \<or> int (length a) mod w \<noteq> 0 then Inl ValueError
      else Inr (map (\<lambda>r. take (nat w) (drop (r * nat w) a)) [0..<length a div nat w]))"

text \<open>\<^verbatim>\<open>.mean(axis=1)\<close> on rows of booleans: the share of \<^verbatim>\<open>True\<close> in each row.\<close>

definition np_mean_rows :: "bool list list \<Rightarrow> rat list" where
  "np_mean_rows rows =
     map (\<lambda>row. of_nat (length (filter (\<lambda>b. b) row)) / of_nat (length row)) rows"

text \<open>\<^verbatim>\<open>np.diff(a)\<close>: the differences of neighbours, one entry fewer than \<open>a\<close>.\<close>

definition np_diff :: "int list \<Rightarrow> int list" where
  "np_diff a = map (\<lambda>i. a ! Suc i - a ! i) [0..<length a - 1]"

text \<open>\<^verbatim>\<open>np.flatnonzero(a)\<close>: the indices of the non-zero entries, ascending.\<close>

definition np_flatnonzero :: "int list \<Rightarrow> nat list" where
  "np_flatnonzero a = filter (\<lambda>i. a ! i \<noteq> 0) [0..<length a]"

text \<open>\<^verbatim>\<open>a.reshape((-1, 2))\<close>: consecutive pairs; an odd size is a \<^verbatim>\<open>ValueError\<close>.\<close>

fun np_reshape_pairs :: "'a list \<Rightarrow> py_error + ('a \<times> 'a) list" where
  "np_reshape_pairs [] = Inr []"
| "np_reshape_pairs [x] = Inl ValueError"
| "np_reshape_pairs (x # y # xs) =
     (case np_reshape_pairs xs of Inl e \<Rightarrow> Inl e | Inr ps \<Rightarrow> Inr ((x, y) # ps))"

subsection \<open>fill_gap\<close>

text \<open>
  \<^verbatim>\<open>
  def fill_gap(a, k):
      if k == 0:
          return a
      v = np.ones(2 * k + 1)
      a = np.convolve(a, v) > 0  # dilation
      a = np.convolve(a, v) == v.size  # erosion
      return a[2 * k : -2 * k]
  \<close>
\<close>

definition fill_gap :: "bool list \<Rightarrow> int \<Rightarrow> py_error + bool list" where
  "fill_gap a k =
     (if k = 0 then Inr a
      else case np_ones (2 * k + 1) of Inl e \<Rightarrow> Inl e | Inr v \<Rightarrow>
        (case np_convolve (as_num a) v of Inl e \<Rightarrow> Inl e | Inr c1 \<Rightarrow>
          (let a1 = map (\<lambda>x. x > 0) c1 in
           case np_convolve (as_num a1) v of Inl e \<Rightarrow> Inl e | Inr c2 \<Rightarrow>
             (let a2 = map (\<lambda>x. x = of_nat (length v)) c2 in
              Inr (py_slice a2 (2 * k) (- 2 * k))))))"

subsection \<open>AudioModel\<close>

text \<open>
  The fields of \<^verbatim>\<open>AudioModel\<close>. Its constructor reads the file and computes the loudness
  with librosa; \<^verbatim>\<open>detect\<close> takes the object as given and reads \<open>db\<close>, \<open>sample_rate\<close> and
  \<open>hop_length\<close>.
\<close>

record AudioModel =
  y :: "rat list"
  sample_rate :: int
  frame_length :: int
  hop_length :: int
  rms :: "rat list"
  db :: "rat list"

subsection \<open>is_test_noise\<close>

text \<open>
  \<^verbatim>\<open>
  def is_test_noise(db_agg, sample_ratio_thresh=0.75, db_ratio_thresh=0.95):
      if len(db_agg) < 4:  # not enough samples
          return False
      sample_count = db_agg.size
      high_count = (db_agg >= db_ratio_thresh).sum()
      return (high_count / sample_count) >= sample_ratio_thresh
  \<close>
\<close>

definition is_test_noise :: "rat list \<Rightarrow> rat \<Rightarrow> rat \<Rightarrow> bool" where
  "is_test_noise db_agg sample_ratio_thresh db_ratio_thresh =
     (if length db_agg < 4 then False
      else let sample_count = length db_agg;
               high_count = length (filter (\<lambda>x. x \<ge> db_ratio_thresh) db_agg)
           in of_nat high_count / of_nat sample_count \<ge> sample_ratio_thresh)"

text \<open>The defaults of the two thresholds, which \<^verbatim>\<open>detect\<close> uses.\<close>

definition sample_ratio_thresh_default :: rat where
  "sample_ratio_thresh_default = 75 / 100"

definition db_ratio_thresh_default :: rat where
  "db_ratio_thresh_default = 95 / 100"

subsection \<open>detect\<close>

text \<open>
  Lines 61 to 63: \<^verbatim>\<open>window_length = int(audio.sample_rate / audio.hop_length * window_sec)\<close>.
  \<open>window_length_value\<close> is the float handed to \<^verbatim>\<open>int\<close>: the quotient of the two ints,
  rounded to a double, times \<^verbatim>\<open>window_sec\<close> as a float, rounded to a double.
\<close>

definition window_length_value :: "AudioModel \<Rightarrow> rat \<Rightarrow> py_error + rat" where
  "window_length_value audio window_sec =
     (case py_truediv (of_int (sample_rate audio)) (of_int (hop_length audio)) of
        Inl e \<Rightarrow> Inl e
      | Inr q \<Rightarrow> (case py_float window_sec of Inl e \<Rightarrow> Inl e
                 | Inr w \<Rightarrow> py_float (q * w)))"

definition window_length :: "AudioModel \<Rightarrow> rat \<Rightarrow> py_error + int" where
  "window_length audio window_sec =
     (case window_length_value audio window_sec of Inl e \<Rightarrow> Inl e
      | Inr x \<Rightarrow> Inr (py_int x))"

text \<open>
  Lines 60 to 69, the aggregation: the thresholded trace, padded with \<^verbatim>\<open>False\<close> to a
  multiple of the window length, and the share of active frames of each window.
  \<^verbatim>\<open>
  db_bin = audio.db >= db_thresh
  window_length = int(audio.sample_rate / audio.hop_length * window_sec)
  pad_length = (window_length - (len(audio.db) % window_length)) % window_length
  db_bin = np.pad(db_bin, (0, pad_length))
  assert db_bin.size % window_length == 0
  db_agg = db_bin.reshape(-1, window_length).mean(axis=1)
  \<close>
\<close>

definition aggregate :: "AudioModel \<Rightarrow> rat \<Rightarrow> rat \<Rightarrow> py_error + rat list" where
  "aggregate audio db_thresh window_sec =
     (let db_bin = map (\<lambda>x. x \<ge> db_thresh) (db audio) in
      case window_length audio window_sec of Inl e \<Rightarrow> Inl e | Inr wl \<Rightarrow>
        (case py_mod (int (length (db audio))) wl of Inl e \<Rightarrow> Inl e | Inr r \<Rightarrow>
          (case py_mod (wl - r) wl of Inl e \<Rightarrow> Inl e | Inr pad_length \<Rightarrow>
            (case np_pad db_bin pad_length of Inl e \<Rightarrow> Inl e | Inr db_bin' \<Rightarrow>
              (case py_mod (int (length db_bin')) wl of Inl e \<Rightarrow> Inl e | Inr s \<Rightarrow>
                 if s \<noteq> 0 then Inl AssertionError
                 else (case np_reshape_rows db_bin' wl of Inl e \<Rightarrow> Inl e
                       | Inr rows \<Rightarrow> Inr (np_mean_rows rows)))))))"

text \<open>
  Line 72, the radius handed to \<^verbatim>\<open>fill_gap\<close>: \<^verbatim>\<open>int(silence_sec / window_sec / 2)\<close>.
  \<open>gap_radius_value\<close> is the float handed to \<^verbatim>\<open>int\<close>: the quotient of the two arguments,
  rounded to a double, divided by 2, rounded to a double.
\<close>

definition gap_radius_value :: "rat \<Rightarrow> rat \<Rightarrow> py_error + rat" where
  "gap_radius_value silence_sec window_sec =
     (case py_float silence_sec of Inl e \<Rightarrow> Inl e | Inr s \<Rightarrow>
        (case py_float window_sec of Inl e \<Rightarrow> Inl e | Inr w \<Rightarrow>
           (case py_truediv s w of Inl e \<Rightarrow> Inl e | Inr q \<Rightarrow> py_truediv q 2)))"

definition gap_radius :: "rat \<Rightarrow> rat \<Rightarrow> py_error + int" where
  "gap_radius silence_sec window_sec =
     (case gap_radius_value silence_sec window_sec of Inl e \<Rightarrow> Inl e
      | Inr h \<Rightarrow> Inr (py_int h))"

text \<open>
  Lines 73 to 78, the interval extraction.
  \<^verbatim>\<open>
  db_agg_bin_ws = np.concatenate(([False], db_agg_bin, [False]))
  interval_mat = np.flatnonzero(np.diff(db_agg_bin_ws.astype(int))).reshape((-1, 2))
  \<close>
  \<open>transitions\<close> is the argument of the reshape.
\<close>

definition transitions :: "bool list \<Rightarrow> nat list" where
  "transitions bin_seq =
     np_flatnonzero (np_diff (map of_bool ([False] @ bin_seq @ [False])))"

definition extract_intervals :: "bool list \<Rightarrow> py_error + (nat \<times> nat) list" where
  "extract_intervals bin_seq = np_reshape_pairs (transitions bin_seq)"

text \<open>
  Lines 80 to 85, the data frame of the candidates and the test-noise filter.
  \<^verbatim>\<open>
  out_df = pd.DataFrame(interval_mat, columns=["start_frame", "end_frame"])
  out_df["is_test_noise"] = out_df.apply(
      lambda x: self.is_test_noise(db_agg[x["start_frame"] : x["end_frame"]]), axis=1)
  out_df = out_df[~out_df["is_test_noise"]]
  \<close>
  With at least one row, \<^verbatim>\<open>apply\<close> calls the function on each row and returns the column
  of its results. On a frame with no row pandas does not call it on any row:
  \<^verbatim>\<open>DataFrame.apply\<close> returns a copy of the empty frame, which has the two columns
  \<^verbatim>\<open>start_frame\<close> and \<^verbatim>\<open>end_frame\<close>, and the assignment of a frame of two columns to the
  single column \<^verbatim>\<open>is_test_noise\<close> raises \<^verbatim>\<open>ValueError\<close>.
\<close>

definition drop_test_noise ::
  "rat list \<Rightarrow> (nat \<times> nat) list \<Rightarrow> py_error + (nat \<times> nat) list" where
  "drop_test_noise db_agg interval_mat =
     (if interval_mat = [] then Inl ValueError
      else Inr (filter (\<lambda>(start_frame, end_frame).
                  \<not> is_test_noise (py_slice db_agg (int start_frame) (int end_frame))
                       sample_ratio_thresh_default db_ratio_thresh_default)
                interval_mat))"

text \<open>
  Lines 87 to 89, the conversion to seconds.
  \<^verbatim>\<open>
  out_df["start_sec"] = out_df["start_frame"] * window_sec - buffer_sec
  out_df["end_sec"] = out_df["end_frame"] * window_sec + buffer_sec
  \<close>
\<close>

definition to_seconds :: "rat \<Rightarrow> rat \<Rightarrow> (nat \<times> nat) list \<Rightarrow> (rat \<times> rat) list" where
  "to_seconds window_sec buffer_sec rows =
     map (\<lambda>(start_frame, end_frame).
            (of_nat start_frame * window_sec - buffer_sec,
             of_nat end_frame * window_sec + buffer_sec)) rows"

text \<open>
  \<^verbatim>\<open>detect(audio, db_thresh, agg_thresh, window_sec, silence_sec, buffer_sec)\<close>: the steps
  above in the order of the source. The result is the list of the rows
  \<open>(start_sec, end_sec)\<close> of the returned frame.
\<close>

definition detect ::
  "AudioModel \<Rightarrow> rat \<Rightarrow> rat \<Rightarrow> rat \<Rightarrow> rat \<Rightarrow> rat \<Rightarrow> py_error + (rat \<times> rat) list" where
  "detect audio db_thresh agg_thresh window_sec silence_sec buffer_sec =
     (case aggregate audio db_thresh window_sec of Inl e \<Rightarrow> Inl e | Inr db_agg \<Rightarrow>
        (let db_agg_bin = map (\<lambda>x. x \<ge> agg_thresh) db_agg in
         case gap_radius silence_sec window_sec of Inl e \<Rightarrow> Inl e | Inr k \<Rightarrow>
           (case fill_gap db_agg_bin k of Inl e \<Rightarrow> Inl e | Inr filled \<Rightarrow>
             (case extract_intervals filled of Inl e \<Rightarrow> Inl e | Inr interval_mat \<Rightarrow>
               (case drop_test_noise db_agg interval_mat of Inl e \<Rightarrow> Inl e
                | Inr kept \<Rightarrow> Inr (to_seconds window_sec buffer_sec kept))))))"

section \<open>The float operations\<close>

text \<open>The bound of the doubles as a numeral, for the evaluation of \<open>py_float\<close>.\<close>

lemma float_overflow_code [code]:
  "float_overflow = 179769313486231580793728971405303415079934132710037826936173778980444968292764750946649017977587207096330286416692887910946555547851940402630657488671505820681908902000708383676273854845817711531764475730270069855571366959622842914819860834936475292719074168444365510704342711559699508093042880177904174497792"
  by (simp add: float_overflow_def)

text \<open>
  \<open>rat_ilog2\<close> is the binary exponent, and \<open>nearest_double x\<close> lies within half a unit in
  the last place of \<open>x\<close>: within the relative error \<open>2^-53\<close> from the smallest normal
  double \<open>2^-1022\<close> on.
\<close>

lemma pow2_powi: "pow2 e = 2 powi e"
proof (cases "0 \<le> e")
  case True
  then show ?thesis by (simp add: pow2_def power_int_def)
next
  case False
  have "inverse (2::rat) ^ nat (- e) = 1 / 2 ^ nat (- e)"
    by (simp add: power_one_over inverse_eq_divide)
  with False show ?thesis by (simp only: pow2_def power_int_def if_False)
qed

lemma pow2_pos: "0 < pow2 e"
  by (simp add: pow2_powi)

lemma pow2_add: "pow2 (a + b) = pow2 a * pow2 b"
  by (simp add: pow2_powi power_int_add)

lemma pow2_diff: "pow2 (a - b) = pow2 a / pow2 b"
  by (simp add: pow2_powi power_int_diff)

lemma round_half_even_error: "\<bar>of_int (round_half_even m) - m\<bar> \<le> 1 / 2"
  unfolding round_half_even_def Let_def by (auto simp: abs_if) linarith+


lemma bitlen_rat_bounds:
  assumes "0 < p"
  shows "pow2 (bitlen p - 1) \<le> of_int p" "of_int p < pow2 (bitlen p)"
proof -
  from bitlen_bounds [OF assms]
  have lo: "2 ^ nat (bitlen p - 1) \<le> p" and hi: "p < 2 ^ nat (bitlen p)" by simp_all
  have ge: "1 \<le> bitlen p"
  proof (rule ccontr)
    assume "\<not> 1 \<le> bitlen p"
    then have "nat (bitlen p) = 0" by simp
    with hi assms show False by simp
  qed
  have "(of_int (2 ^ nat (bitlen p - 1)) :: rat) \<le> of_int p" using lo by (simp only: of_int_le_iff)
  then show "pow2 (bitlen p - 1) \<le> of_int p" using ge by (simp add: pow2_def)
  have "(of_int p :: rat) < of_int (2 ^ nat (bitlen p))" using hi by (simp only: of_int_less_iff)
  then show "of_int p < pow2 (bitlen p)" using ge by (simp add: pow2_def)
qed

lemma rat_ilog2_bounds:
  assumes "x \<noteq> 0"
  shows "pow2 (rat_ilog2 x) \<le> \<bar>x\<bar>" "\<bar>x\<bar> < pow2 (rat_ilog2 x + 1)"
proof -
  obtain p q where pq: "quotient_of \<bar>x\<bar> = (p, q)" by (cases "quotient_of \<bar>x\<bar>")
  have q: "0 < q" using pq by (rule quotient_of_denom_pos)
  have xe: "\<bar>x\<bar> = of_int p / of_int q" using pq by (rule quotient_of_div)
  have xp: "0 < \<bar>x\<bar>" using assms by simp
  have p: "0 < p"
  proof (rule ccontr)
    assume "\<not> 0 < p"
    then have "(of_int p :: rat) \<le> 0" by simp
    then have "of_int p / (of_int q :: rat) \<le> 0" using q by (simp add: divide_le_0_iff)
    with xe xp show False by simp
  qed
  define d where "d = bitlen p - bitlen q"
  have P: "pow2 (bitlen p - 1) \<le> of_int p" "of_int p < pow2 (bitlen p)"
    using bitlen_rat_bounds [OF p] by simp_all
  have Q: "pow2 (bitlen q - 1) \<le> of_int q" "of_int q < pow2 (bitlen q)"
    using bitlen_rat_bounds [OF q] by simp_all
  have qr: "(0::rat) < of_int q" using q by simp
  have pr: "(0::rat) < of_int p" using p by simp
  have up: "\<bar>x\<bar> < pow2 (d + 1)"
  proof -
    have "of_int p / (of_int q :: rat) \<le> of_int p / pow2 (bitlen q - 1)"
      using Q(1) pr pow2_pos [of "bitlen q - 1"] by (intro divide_left_mono) simp_all
    also have "\<dots> < pow2 (bitlen p) / pow2 (bitlen q - 1)"
      using P(2) pow2_pos [of "bitlen q - 1"] by (intro divide_strict_right_mono) simp_all
    also have "\<dots> = pow2 (bitlen p - (bitlen q - 1))" by (simp only: pow2_diff)
    also have "bitlen p - (bitlen q - 1) = d + 1" by (simp add: d_def)
    finally show ?thesis by (simp only: xe)
  qed
  have low: "pow2 (d - 1) \<le> \<bar>x\<bar>"
  proof -
    have "pow2 (d - 1) = pow2 (bitlen p - 1 - bitlen q)" by (simp add: d_def algebra_simps)
    also have "\<dots> = pow2 (bitlen p - 1) / pow2 (bitlen q)" by (simp only: pow2_diff)
    also have "\<dots> \<le> of_int p / pow2 (bitlen q)"
      using P(1) pow2_pos [of "bitlen q"] by (intro divide_right_mono) simp_all
    also have "\<dots> \<le> of_int p / of_int q"
      using Q(2) pr qr by (intro divide_left_mono) simp_all
    finally show ?thesis by (simp only: xe)
  qed
  have r: "rat_ilog2 x = (if pow2 d \<le> \<bar>x\<bar> then d else d - 1)"
    by (simp add: rat_ilog2_def pq d_def Let_def)
  show "pow2 (rat_ilog2 x) \<le> \<bar>x\<bar>" using low by (simp add: r)
  show "\<bar>x\<bar> < pow2 (rat_ilog2 x + 1)" using up by (simp add: r) 
qed


lemma pow2_mono: "a \<le> b \<Longrightarrow> pow2 a \<le> pow2 b"
  by (simp add: pow2_powi power_int_increasing)

lemma nearest_double_error:
  "\<bar>nearest_double x - x\<bar> \<le> pow2 (max (rat_ilog2 x - 52) (- 1074)) / 2"
proof (cases "x = 0")
  case True
  then show ?thesis using pow2_pos [of "max (rat_ilog2 x - 52) (- 1074)"]
    by (simp add: nearest_double_def)
next
  case False
  define e where "e = max (rat_ilog2 x - 52) (- 1074)"
  define m where "m = x / pow2 e"
  have pe: "0 < pow2 e" by (rule pow2_pos)
  have xm: "x = m * pow2 e" using pe by (simp add: m_def)
  have nd: "nearest_double x = of_int (round_half_even m) * pow2 e"
    using False by (simp add: nearest_double_def Let_def e_def m_def)
  have "nearest_double x - x = of_int (round_half_even m) * pow2 e - m * pow2 e"
    using nd xm by simp
  also have "\<dots> = (of_int (round_half_even m) - m) * pow2 e"
    by (simp only: left_diff_distrib)
  finally have "nearest_double x - x = (of_int (round_half_even m) - m) * pow2 e" .
  then have "\<bar>nearest_double x - x\<bar> = \<bar>of_int (round_half_even m) - m\<bar> * pow2 e"
    using pe by (simp add: abs_mult)
  also have "\<dots> \<le> (1 / 2) * pow2 e"
    using round_half_even_error [of m] pe by (intro mult_right_mono) simp_all
  finally show ?thesis by (simp add: e_def)
qed

lemma nearest_double_relative_error:
  assumes "pow2 (- 1022) \<le> \<bar>x\<bar>"
  shows "\<bar>nearest_double x - x\<bar> \<le> \<bar>x\<bar> * pow2 (- 53)"
proof -
  have nz: "x \<noteq> 0" using assms pow2_pos [of "- 1022"] by auto
  have ge: "- 1022 \<le> rat_ilog2 x"
  proof (rule ccontr)
    assume "\<not> - 1022 \<le> rat_ilog2 x"
    then have "rat_ilog2 x + 1 \<le> - 1022" by simp
    then have "pow2 (rat_ilog2 x + 1) \<le> pow2 (- 1022)" by (rule pow2_mono)
    with rat_ilog2_bounds(2) [OF nz] assms show False by simp
  qed
  then have e: "max (rat_ilog2 x - 52) (- 1074) = rat_ilog2 x - 52" by simp
  have "\<bar>nearest_double x - x\<bar> \<le> pow2 (rat_ilog2 x - 52) / 2"
    using nearest_double_error [of x] by (simp only: e)
  also have "pow2 (rat_ilog2 x - 52) / 2 = pow2 (rat_ilog2 x + (- 53))"
  proof -
    have "pow2 (rat_ilog2 x - 52) = pow2 (rat_ilog2 x + (- 53) + 1)" by simp
    also have "\<dots> = pow2 (rat_ilog2 x + (- 53)) * pow2 1" by (simp only: pow2_add)
    finally show ?thesis by (simp add: pow2_def)
  qed
  also have "\<dots> = pow2 (rat_ilog2 x) * pow2 (- 53)" by (simp only: pow2_add)
  also have "\<dots> \<le> \<bar>x\<bar> * pow2 (- 53)"
    using rat_ilog2_bounds(1) [OF nz] pow2_pos [of "- 53"] by (intro mult_right_mono) simp_all
  finally show ?thesis .
qed

section \<open>Properties of fill_gap\<close>

subsection \<open>The convolution with a window of ones counts the active entries\<close>

lemma sum_list_indicator:
  "(\<Sum>j\<leftarrow>xs. if P j then (1::rat) else 0) = of_nat (length (filter P xs))"
  by (induction xs) auto

lemma length_filter_upt_card:
  "length (filter P [0..<n]) = card {j. j < n \<and> P j}"
proof -
  have "length (filter P [0..<n]) = card (set (filter P [0..<n]))"
    by (rule distinct_card [symmetric]) simp
  also have "set (filter P [0..<n]) = {j. j < n \<and> P j}" by auto
  finally show ?thesis .
qed

lemma convolve_ones_nth:
  assumes "a \<noteq> []" "0 < m"
  shows "\<exists>c. np_convolve (as_num a) (replicate m 1) = Inr c \<and>
             length c = length a + m - 1 \<and>
             (\<forall>i < length a + m - 1.
                c ! i = of_nat (card {j. j < length a \<and> j \<le> i \<and> i - j < m \<and> a ! j}))"
proof -
  have eq: "(\<Sum>j\<leftarrow>[0..<length a].
             if j \<le> i \<and> i - j < m then as_num a ! j * replicate m (1::rat) ! (i - j) else 0)
          = of_nat (card {j. j < length a \<and> j \<le> i \<and> i - j < m \<and> a ! j})" for i
  proof -
    have "(\<Sum>j\<leftarrow>[0..<length a].
             if j \<le> i \<and> i - j < m then as_num a ! j * replicate m (1::rat) ! (i - j) else 0)
        = (\<Sum>j\<leftarrow>[0..<length a]. if j \<le> i \<and> i - j < m \<and> a ! j then (1::rat) else 0)"
      by (rule arg_cong [where f = sum_list], rule map_cong) (auto simp: as_num_def)
    also have "\<dots> = of_nat (length (filter (\<lambda>j. j \<le> i \<and> i - j < m \<and> a ! j) [0..<length a]))"
      by (rule sum_list_indicator)
    also have "length (filter (\<lambda>j. j \<le> i \<and> i - j < m \<and> a ! j) [0..<length a])
        = card {j. j < length a \<and> j \<le> i \<and> i - j < m \<and> a ! j}"
      by (simp add: length_filter_upt_card)
    finally show ?thesis .
  qed
  show ?thesis using assms
    by (simp add: np_convolve_def as_num_def eq [unfolded as_num_def])
qed


lemma card_window:
  assumes "p < n"
  shows "(card {j. j < n + 2 * K \<and> j \<le> p + 2 * K \<and> p + 2 * K - j < 2 * K + 1 \<and> Q j} = 2 * K + 1)
         \<longleftrightarrow> (\<forall>j\<in>{p..p + 2 * K}. Q j)"
proof -
  let ?S = "{j. j < n + 2 * K \<and> j \<le> p + 2 * K \<and> p + 2 * K - j < 2 * K + 1 \<and> Q j}"
  have mem: "j \<in> ?S \<longleftrightarrow> j \<in> {p..p + 2 * K} \<and> Q j" for j
    using assms by (simp add: less_Suc_eq_le) arith
  have sub: "?S \<subseteq> {p..p + 2 * K}" using mem by blast
  have cardW: "card {p..p + 2 * K} = 2 * K + 1" by simp
  show ?thesis
  proof
    assume "card ?S = 2 * K + 1"
    then have "card ?S = card {p..p + 2 * K}" using cardW by simp
    then have "?S = {p..p + 2 * K}"
      by (rule card_subset_eq [OF finite_atLeastAtMost sub])
    then show "\<forall>j\<in>{p..p + 2 * K}. Q j" using mem by blast
  next
    assume all: "\<forall>j\<in>{p..p + 2 * K}. Q j"
    have "?S = {p..p + 2 * K}" using all mem by blast
    then show "card ?S = 2 * K + 1" using cardW by simp
  qed
qed

lemma py_slice_trim:
  assumes "length xs = n + 4 * K" "0 < K"
  shows "py_slice xs (2 * int K) (- 2 * int K) = take n (drop (2 * K) xs)"
proof -
  have lo: "(2 * int K < 0) = False" by simp
  have hi: "(- 2 * int K < 0) = True" using assms(2) by simp
  have lo': "nat (min (2 * int K) (int (n + 4 * K))) = 2 * K" by (simp add: min_def)
  have hi': "nat (max (- 2 * int K + int (n + 4 * K)) 0) = n + 2 * K" by (simp add: max_def) arith
  have d: "n + 2 * K - 2 * K = n" by simp
  show ?thesis
    by (simp only: py_slice_def Let_def assms(1) lo hi if_True if_False lo' hi' d)
qed

lemma fill_gap_char:
  assumes k: "0 < k" and ne: "a \<noteq> []"
  shows "\<exists>r. fill_gap a k = Inr r \<and> length r = length a \<and>
           (\<forall>p < length a. r ! p \<longleftrightarrow>
              (\<forall>j\<in>{p..p + 2 * nat k}. \<exists>l < length a. l \<le> j \<and> j \<le> l + 2 * nat k \<and> a ! l))"
proof -
  define K where "K = nat k"
  define n where "n = length a"
  have K: "0 < K" "k = int K" using k by (simp_all add: K_def)
  have ones: "np_ones (2 * k + 1) = Inr (replicate (2 * K + 1) 1)"
    using K by (simp add: np_ones_def nat_add_distrib nat_mult_distrib)
  obtain c1 where c1: "np_convolve (as_num a) (replicate (2 * K + 1) 1) = Inr c1"
    and len1: "length c1 = n + 2 * K"
    and nth1: "\<forall>i < n + 2 * K. c1 ! i
                 = of_nat (card {j. j < n \<and> j \<le> i \<and> i - j < 2 * K + 1 \<and> a ! j})"
    using convolve_ones_nth [OF ne, of "2 * K + 1"] by (auto simp: n_def)
  define a1 where "a1 = map (\<lambda>x. x > 0) c1"
  have a1_len: "length a1 = n + 2 * K" by (simp add: a1_def len1)
  have a1_ne: "a1 \<noteq> []" using a1_len K by auto
  have a1_nth: "a1 ! i \<longleftrightarrow> (\<exists>l < n. l \<le> i \<and> i \<le> l + 2 * K \<and> a ! l)" if "i < n + 2 * K" for i
  proof -
    let ?S = "{j. j < n \<and> j \<le> i \<and> i - j < 2 * K + 1 \<and> a ! j}"
    have fin: "finite ?S" by simp
    have "a1 ! i \<longleftrightarrow> 0 < card ?S" using that nth1 by (simp add: a1_def len1)
    also have "\<dots> \<longleftrightarrow> ?S \<noteq> {}" using fin by (simp add: card_gt_0_iff)
    also have "\<dots> \<longleftrightarrow> (\<exists>l. l < n \<and> l \<le> i \<and> i - l < 2 * K + 1 \<and> a ! l)" by blast
    also have "\<dots> \<longleftrightarrow> (\<exists>l < n. l \<le> i \<and> i \<le> l + 2 * K \<and> a ! l)"
      by (intro iff_exI) auto
    finally show ?thesis .
  qed
  obtain c2 where c2: "np_convolve (as_num a1) (replicate (2 * K + 1) 1) = Inr c2"
    and len2: "length c2 = n + 4 * K"
    and nth2: "\<forall>i < n + 4 * K. c2 ! i
                 = of_nat (card {j. j < n + 2 * K \<and> j \<le> i \<and> i - j < 2 * K + 1 \<and> a1 ! j})"
    using convolve_ones_nth [OF a1_ne, of "2 * K + 1"] by (auto simp: a1_len)
  define a2 where "a2 = map (\<lambda>x. x = of_nat (2 * K + 1)) c2"
  have a2_len: "length a2 = n + 4 * K" by (simp add: a2_def len2)
  define r where "r = take n (drop (2 * K) a2)"
  have sl: "py_slice a2 (2 * k) (- 2 * k) = r"
    using py_slice_trim [OF a2_len K(1)] by (simp only: K(2) r_def)
  have k0: "(k = 0) = False" using k by simp
  have fg: "fill_gap a k = Inr r"
    by (simp only: fill_gap_def k0 if_False ones sum.case c1 Let_def a1_def [symmetric] c2
        length_replicate a2_def [symmetric] sl)
  have r_len: "length r = n" by (simp add: r_def a2_len)
  have r_nth: "r ! p \<longleftrightarrow> (\<forall>j\<in>{p..p + 2 * K}. \<exists>l < n. l \<le> j \<and> j \<le> l + 2 * K \<and> a ! l)"
    if p: "p < n" for p
  proof -
    have c2p: "c2 ! (p + 2 * K)
        = of_nat (card {j. j < n + 2 * K \<and> j \<le> p + 2 * K \<and> p + 2 * K - j < 2 * K + 1 \<and> a1 ! j})"
      using nth2 [rule_format, of "p + 2 * K"] p by simp
    have "r ! p = a2 ! (2 * K + p)" using p by (simp add: r_def a2_len)
    also have "\<dots> \<longleftrightarrow> c2 ! (p + 2 * K) = of_nat (2 * K + 1)"
      using p by (simp add: a2_def len2 add.commute del: of_nat_add of_nat_mult)
    also have "\<dots> \<longleftrightarrow> card {j. j < n + 2 * K \<and> j \<le> p + 2 * K \<and> p + 2 * K - j < 2 * K + 1 \<and> a1 ! j}
                       = 2 * K + 1"
      by (simp only: c2p of_nat_eq_iff)
    also have "\<dots> \<longleftrightarrow> (\<forall>j\<in>{p..p + 2 * K}. a1 ! j)"
      by (rule card_window [OF p])
    also have "\<dots> \<longleftrightarrow> (\<forall>j\<in>{p..p + 2 * K}. \<exists>l < n. l \<le> j \<and> j \<le> l + 2 * K \<and> a ! l)"
    proof (rule ball_cong [OF refl])
      fix j assume "j \<in> {p..p + 2 * K}"
      then have "j < n + 2 * K" using p by simp
      then show "a1 ! j \<longleftrightarrow> (\<exists>l < n. l \<le> j \<and> j \<le> l + 2 * K \<and> a ! l)" by (rule a1_nth)
    qed
    finally show ?thesis .
  qed
  show ?thesis
  proof (intro exI conjI allI impI)
    show "fill_gap a k = Inr r" by (rule fg)
    show "length r = length a" using r_len by (simp add: n_def)
    show "r ! p \<longleftrightarrow> (\<forall>j\<in>{p..p + 2 * nat k}. \<exists>l < length a. l \<le> j \<and> j \<le> l + 2 * nat k \<and> a ! l)"
      if "p < length a" for p
      using r_nth [of p] that by (simp add: n_def K_def)
  qed
qed

subsection \<open>Length preservation\<close>

text \<open>
  Claim C8. For every \<open>k \<ge> 0\<close> and every input of length greater than \<open>4 * k\<close>,
  \<^verbatim>\<open>fill_gap\<close> returns, and the sequence it returns has exactly the length of the input.
\<close>

theorem fill_gap_preserves_length:
  assumes "0 \<le> k" and "4 * k < int (length a)"
  shows "\<exists>r. fill_gap a k = Inr r \<and> length r = length a"
proof (cases "k = 0")
  case True
  then show ?thesis by (simp add: fill_gap_def)
next
  case False
  with assms(1) have pos: "0 < k" by simp
  from assms have "a \<noteq> []" by auto
  from fill_gap_char [OF pos this] show ?thesis by blast
qed

theorem fill_gap_preserves_length_witness:
  "(0::int) \<le> 1 \<and> 4 * 1 < int (length [True, False, False, True, False]) \<and>
   (\<exists>r. fill_gap [True, False, False, True, False] 1 = Inr r \<and>
        length r = length [True, False, False, True, False])"
  using fill_gap_preserves_length [of 1 "[True, False, False, True, False]"] by simp

subsection \<open>Gap bridging\<close>

lemma gap_pattern_nth:
  fixes pre post :: "bool list" and g :: nat
  defines "a \<equiv> pre @ replicate 3 True @ replicate g False @ replicate 3 True @ post"
  shows "length pre \<le> l \<Longrightarrow> l < length pre + 3 \<Longrightarrow> a ! l"
    and "length pre + 3 \<le> l \<Longrightarrow> l < length pre + 3 + g \<Longrightarrow> \<not> a ! l"
    and "length pre + 3 + g \<le> l \<Longrightarrow> l < length pre + 3 + g + 3 \<Longrightarrow> a ! l"
    and "length a = length pre + 3 + g + 3 + length post"
  by (auto simp: a_def nth_append)

lemma fill_gap_extensive:
  assumes "0 < k" "p < length a" "a ! p" "fill_gap a k = Inr r"
  shows "r ! p"
proof -
  from assms(2) have "a \<noteq> []" by auto
  from fill_gap_char [OF assms(1) this] assms(4)
  have "r ! p \<longleftrightarrow> (\<forall>j\<in>{p..p + 2 * nat k}. \<exists>l < length a. l \<le> j \<and> j \<le> l + 2 * nat k \<and> a ! l)"
    using assms(2) by auto
  moreover have "\<exists>l < length a. l \<le> j \<and> j \<le> l + 2 * nat k \<and> a ! l" if "j \<in> {p..p + 2 * nat k}" for j
    using that assms(2,3) by (intro exI [of _ p]) simp
  ultimately show ?thesis by blast
qed


text \<open>
  Claim C5. Gap bridging: for every \<open>k \<ge> 1\<close>, on an input of the shape three times
  \<^verbatim>\<open>True\<close>, \<open>g\<close> times \<^verbatim>\<open>False\<close>, three times \<^verbatim>\<open>True\<close>, within any context \<open>pre\<close> and
  \<open>post\<close> (the empty one too), \<^verbatim>\<open>fill_gap\<close> returns a sequence in which both runs of
  \<^verbatim>\<open>True\<close> are kept; if \<open>g \<le> 2 * k\<close> the whole region is one unbroken run of \<^verbatim>\<open>True\<close>, and
  if \<open>g > 2 * k\<close> every position of the gap is still \<^verbatim>\<open>False\<close>.
\<close>

theorem fill_gap_bridges_short_gaps:
  fixes pre post :: "bool list" and g :: nat
  defines "a \<equiv> pre @ replicate 3 True @ replicate g False @ replicate 3 True @ post"
  assumes k: "1 \<le> k"
  shows "\<exists>r. fill_gap a k = Inr r \<and> length r = length a \<and>
           (\<forall>p. length pre \<le> p \<and> p < length pre + 3 \<longrightarrow> r ! p) \<and>
           (\<forall>p. length pre + 3 + g \<le> p \<and> p < length pre + 3 + g + 3 \<longrightarrow> r ! p) \<and>
           (int g \<le> 2 * k \<longrightarrow> (\<forall>p. length pre \<le> p \<and> p < length pre + 3 + g + 3 \<longrightarrow> r ! p)) \<and>
           (2 * k < int g \<longrightarrow> (\<forall>p. length pre + 3 \<le> p \<and> p < length pre + 3 + g \<longrightarrow> \<not> r ! p))"
proof -
  define K where "K = nat k"
  define s where "s = length pre + 3"
  define n where "n = length a"
  have kpos: "0 < k" and kK: "k = int K" using k by (simp_all add: K_def)
  have n: "n = s + g + 3 + length post"
    by (simp add: n_def s_def a_def)
  have left: "a ! l" if "length pre \<le> l" "l < s" for l
    using that unfolding a_def s_def by (rule gap_pattern_nth(1))
  have gap: "\<not> a ! l" if "s \<le> l" "l < s + g" for l
    using that unfolding a_def s_def by (rule gap_pattern_nth(2))
  have right: "a ! l" if "s + g \<le> l" "l < s + g + 3" for l
    using that unfolding a_def s_def by (rule gap_pattern_nth(3))
  have ne: "a \<noteq> []" by (simp add: a_def)
  from fill_gap_char [OF kpos ne] obtain r where r: "fill_gap a k = Inr r"
    and len: "length r = length a"
    and nth: "\<And>p. p < n \<Longrightarrow> r ! p \<longleftrightarrow>
                (\<forall>j\<in>{p..p + 2 * K}. \<exists>l < n. l \<le> j \<and> j \<le> l + 2 * K \<and> a ! l)"
    unfolding K_def n_def by blast
  have keep: "r ! p" if "p < n" "a ! p" for p
    using fill_gap_extensive [OF kpos _ _ r, of p] that by (simp add: n_def)
  have runL: "r ! p" if "length pre \<le> p" "p < s" for p
    using keep [of p] left [of p] that n by simp
  have runR: "r ! p" if "s + g \<le> p" "p < s + g + 3" for p
    using keep [of p] right [of p] that n by simp
  have filled: "r ! p" if small: "g \<le> 2 * K" and p: "s \<le> p" "p < s + g" for p
  proof -
    have pn: "p < n" using p n by simp
    have "\<exists>l < n. l \<le> j \<and> j \<le> l + 2 * K \<and> a ! l" if j: "j \<in> {p..p + 2 * K}" for j
    proof (cases "j \<le> s - 1 + 2 * K")
      case True
      have "s - 1 < n" "s - 1 \<le> j" "a ! (s - 1)"
        using p j n left [of "s - 1"] by (simp_all add: s_def)
      with True show ?thesis by blast
    next
      case False
      have "s + g < n" "s + g \<le> j" "j \<le> s + g + 2 * K" "a ! (s + g)"
        using False p j n small right [of "s + g"] by (simp_all add: s_def)
      then show ?thesis by blast
    qed
    then show ?thesis using nth [OF pn] by blast
  qed
  have kept: "\<not> r ! p" if big: "2 * K < g" and p: "s \<le> p" "p < s + g" for p
  proof -
    have pn: "p < n" using p n by simp
    define j where "j = max p (s + 2 * K)"
    have j: "j \<in> {p..p + 2 * K}" using p by (simp add: j_def)
    have inside: "s \<le> l \<and> l < s + g" if "l \<le> j" "j \<le> l + 2 * K" for l
      using that p big by (simp add: j_def max_def split: if_splits)
    have "\<not> (\<exists>l < n. l \<le> j \<and> j \<le> l + 2 * K \<and> a ! l)"
      using inside gap by blast
    with j show ?thesis using nth [OF pn] by blast
  qed
  have small_iff: "int g \<le> 2 * k \<longleftrightarrow> g \<le> 2 * K" and big_iff: "2 * k < int g \<longleftrightarrow> 2 * K < g"
    unfolding kK by linarith+
  show ?thesis
  proof (intro exI conjI allI impI)
    show "fill_gap a k = Inr r" by (rule r)
    show "length r = length a" by (rule len)
    show "r ! p" if "length pre \<le> p \<and> p < length pre + 3" for p
      using runL [of p] that by (simp add: s_def)
    show "r ! p" if "length pre + 3 + g \<le> p \<and> p < length pre + 3 + g + 3" for p
      using runR [of p] that by (simp add: s_def)
    show "r ! p" if "int g \<le> 2 * k" "length pre \<le> p \<and> p < length pre + 3 + g + 3" for p
    proof -
      consider "p < s" | "s \<le> p" "p < s + g" | "s + g \<le> p" by linarith
      then show ?thesis
      proof cases
        case 1 then show ?thesis using runL that by simp
      next
        case 2 then show ?thesis using filled that small_iff by simp
      next
        case 3 then show ?thesis using runR [of p] that by (simp add: s_def)
      qed
    qed
    show "\<not> r ! p" if "2 * k < int g" "length pre + 3 \<le> p \<and> p < length pre + 3 + g" for p
      using kept [of p] that big_iff by (simp add: s_def)
  qed
qed


theorem fill_gap_bridges_short_gaps_witness:
  "(1::int) \<le> 1 \<and> int 2 \<le> 2 * (1::int) \<and> 2 * (1::int) < int 3 \<and>
   (\<exists>r. fill_gap ([False] @ replicate 3 True @ replicate 2 False @ replicate 3 True @ [False]) 1 = Inr r
        \<and> r ! 1 \<and> r ! 4 \<and> r ! 5 \<and> r ! 8) \<and>
   (\<exists>r. fill_gap ([False] @ replicate 3 True @ replicate 3 False @ replicate 3 True @ [False]) 1 = Inr r
        \<and> r ! 3 \<and> \<not> r ! 4 \<and> \<not> r ! 5 \<and> \<not> r ! 6 \<and> r ! 7)"
proof -
  have h: "(1::int) \<le> 1" by simp
  obtain r2 where r2: "fill_gap ([False] @ replicate 3 True @ replicate 2 False @ replicate 3 True @ [False]) 1 = Inr r2"
    and f2: "int 2 \<le> 2 * 1 \<longrightarrow> (\<forall>p. length [False] \<le> p \<and> p < length [False] + 3 + 2 + 3 \<longrightarrow> r2 ! p)"
    using fill_gap_bridges_short_gaps [OF h, of "[False]" 2 "[False]"] by blast
  obtain r3 where r3: "fill_gap ([False] @ replicate 3 True @ replicate 3 False @ replicate 3 True @ [False]) 1 = Inr r3"
    and t3: "\<forall>p. length [False] \<le> p \<and> p < length [False] + 3 \<longrightarrow> r3 ! p"
    and u3: "\<forall>p. length [False] + 3 + 3 \<le> p \<and> p < length [False] + 3 + 3 + 3 \<longrightarrow> r3 ! p"
    and f3: "2 * 1 < int 3 \<longrightarrow> (\<forall>p. length [False] + 3 \<le> p \<and> p < length [False] + 3 + 3 \<longrightarrow> \<not> r3 ! p)"
    using fill_gap_bridges_short_gaps [OF h, of "[False]" 3 "[False]"] by blast
  have "r2 ! 1 \<and> r2 ! 4 \<and> r2 ! 5 \<and> r2 ! 8" using f2 by simp
  moreover have "r3 ! 3 \<and> \<not> r3 ! 4 \<and> \<not> r3 ! 5 \<and> \<not> r3 ! 6 \<and> r3 ! 7" using t3 u3 f3 by simp
  ultimately show ?thesis using r2 r3 by simp
qed

lemma fill_gap_bridges_eval:
  "fill_gap ([False] @ replicate 3 True @ replicate 2 False @ replicate 3 True @ [False]) 1
     = Inr [False, True, True, True, True, True, True, True, True, False]"
  "fill_gap ([False] @ replicate 3 True @ replicate 3 False @ replicate 3 True @ [False]) 1
     = Inr [False, True, True, True, False, False, False, True, True, True, False]"
  by code_simp+

section \<open>Properties of the interval extraction\<close>

subsection \<open>The transitions, their parity and their pairing\<close>

lemma np_diff_nth:
  "i < length a - 1 \<Longrightarrow> np_diff a ! i = a ! Suc i - a ! i"
  by (simp add: np_diff_def)

lemma length_np_diff: "length (np_diff a) = length a - 1"
  by (simp add: np_diff_def)

lemma transitions_filter:
  "transitions m
     = filter (\<lambda>i. (False # m @ [False]) ! Suc i \<noteq> (False # m @ [False]) ! i) [0..<Suc (length m)]"
proof -
  define ws where "ws = False # m @ [False]"
  define wi :: "int list" where "wi = map of_bool ws"
  have len: "length wi - 1 = Suc (length m)" "length ws = Suc (Suc (length m))"
    by (simp_all add: wi_def ws_def)
  have d: "np_diff wi ! i \<noteq> 0 \<longleftrightarrow> ws ! Suc i \<noteq> ws ! i" if "i < Suc (length m)" for i
  proof -
    have "np_diff wi ! i = wi ! Suc i - wi ! i"
      using that len by (intro np_diff_nth) simp
    also have "wi ! Suc i = of_bool (ws ! Suc i)"
      unfolding wi_def using that len by (intro nth_map) simp
    also have "wi ! i = of_bool (ws ! i)"
      unfolding wi_def using that len by (intro nth_map) simp
    finally show ?thesis by (cases "ws ! Suc i"; cases "ws ! i") simp_all
  qed
  have "transitions m = np_flatnonzero (np_diff wi)"
    by (simp add: transitions_def wi_def ws_def)
  also have "\<dots> = filter (\<lambda>i. np_diff wi ! i \<noteq> 0) [0..<Suc (length m)]"
    unfolding np_flatnonzero_def length_np_diff len ..
  also have "\<dots> = filter (\<lambda>i. ws ! Suc i \<noteq> ws ! i) [0..<Suc (length m)]"
  proof (rule filter_cong [OF refl])
    fix i assume "i \<in> set [0..<Suc (length m)]"
    then have "i < Suc (length m)" by (simp only: set_upt atLeastLessThan_iff)
    then show "(np_diff wi ! i \<noteq> 0) = (ws ! Suc i \<noteq> ws ! i)" by (rule d)
  qed
  finally show ?thesis unfolding ws_def .
qed

lemma toggle_parity:
  assumes "j < length ws" "\<not> ws ! 0"
  shows "ws ! j \<longleftrightarrow> odd (length (filter (\<lambda>i. ws ! Suc i \<noteq> ws ! i) [0..<j]))"
  using assms(1)
proof (induction j)
  case 0
  then show ?case using assms(2) by simp
next
  case (Suc j)
  then have "ws ! j \<longleftrightarrow> odd (length (filter (\<lambda>i. ws ! Suc i \<noteq> ws ! i) [0..<j]))" by simp
  then show ?case by auto
qed


lemma filter_less_sorted_empty:
  assumes "\<forall>z\<in>set xs. (b::nat) < z" "j \<le> b"
  shows "filter (\<lambda>x. x < j) xs = []"
  using assms by (auto simp: filter_empty_conv)

lemma reshape_pairs_sorted:
  fixes E :: "nat list"
  assumes "sorted_wrt (<) E" "even (length E)"
  shows "\<exists>ps. np_reshape_pairs E = Inr ps \<and>
           (\<forall>p\<in>set ps. fst p < snd p \<and> fst p \<in> set E \<and> snd p \<in> set E) \<and>
           sorted_wrt (\<lambda>p q. snd p < fst q) ps \<and>
           (\<forall>j. odd (length (filter (\<lambda>x. x < j) E)) \<longleftrightarrow> (\<exists>p\<in>set ps. fst p < j \<and> j \<le> snd p))"
  using assms
proof (induction E rule: np_reshape_pairs.induct)
  case 1
  then show ?case by simp
next
  case (2 x)
  then show ?case by simp
next
  case (3 x y xs)
  from "3.prems" have xy: "x < y" and above: "\<forall>z\<in>set xs. y < z"
    and srt: "sorted_wrt (<) xs" and ev: "even (length xs)"
    by auto
  from "3.IH" [OF srt ev] obtain ps where ps: "np_reshape_pairs xs = Inr ps"
    and mem: "\<forall>p\<in>set ps. fst p < snd p \<and> fst p \<in> set xs \<and> snd p \<in> set xs"
    and sep: "sorted_wrt (\<lambda>p q. snd p < fst q) ps"
    and par: "\<forall>j. odd (length (filter (\<lambda>x. x < j) xs)) \<longleftrightarrow> (\<exists>p\<in>set ps. fst p < j \<and> j \<le> snd p)"
    by blast
  have first: "\<forall>q\<in>set ps. y < fst q" using mem above by blast
  have parity: "odd (length (filter (\<lambda>z. z < j) (x # y # xs)))
      \<longleftrightarrow> (\<exists>p\<in>set ((x, y) # ps). fst p < j \<and> j \<le> snd p)" for j
  proof -
    consider "j \<le> x" | "x < j" "j \<le> y" | "y < j" by linarith
    then show ?thesis
    proof cases
      case 1
      then have "j \<le> y" using xy by simp
      then have e: "filter (\<lambda>z. z < j) xs = []" by (rule filter_less_sorted_empty [OF above])
      have "\<not> (\<exists>p\<in>set ps. fst p < j)" using first 1 xy by fastforce
      then show ?thesis using 1 xy e by auto
    next
      case 2
      then have e: "filter (\<lambda>z. z < j) xs = []" using filter_less_sorted_empty [OF above] by simp
      show ?thesis using 2 e by simp
    next
      case 3
      then have "odd (length (filter (\<lambda>z. z < j) (x # y # xs)))
          \<longleftrightarrow> odd (length (filter (\<lambda>z. z < j) xs))" using xy by simp
      also have "\<dots> \<longleftrightarrow> (\<exists>p\<in>set ps. fst p < j \<and> j \<le> snd p)" using par by simp
      also have "\<dots> \<longleftrightarrow> (\<exists>p\<in>set ((x, y) # ps). fst p < j \<and> j \<le> snd p)" using 3 by simp
      finally show ?thesis .
    qed
  qed
  show ?case
  proof (intro exI conjI allI)
    show "np_reshape_pairs (x # y # xs) = Inr ((x, y) # ps)" using ps by simp
    show "\<forall>p\<in>set ((x, y) # ps). fst p < snd p \<and> fst p \<in> set (x # y # xs) \<and> snd p \<in> set (x # y # xs)"
      using xy mem by simp
    show "sorted_wrt (\<lambda>p q. snd p < fst q) ((x, y) # ps)" using sep first by simp
    show "odd (length (filter (\<lambda>z. z < j) (x # y # xs)))
      \<longleftrightarrow> (\<exists>p\<in>set ((x, y) # ps). fst p < j \<and> j \<le> snd p)" for j by (rule parity)
  qed
qed

lemma filter_less_upt:
  "j \<le> n \<Longrightarrow> filter (\<lambda>x. x < j) (filter P [0..<n]) = filter P [0..<j]"
proof (induction n)
  case 0
  then show ?case by simp
next
  case (Suc n)
  show ?case
  proof (cases "j = Suc n")
    case True
    have "filter (\<lambda>x. x < Suc n) (filter P [0..<Suc n]) = filter P [0..<Suc n]"
      by (rule filter_True) simp
    then show ?thesis using True by simp
  next
    case False
    with Suc.prems have "j \<le> n" by simp
    with Suc.IH show ?thesis by simp
  qed
qed


lemma extract_intervals_char:
  "\<exists>ivs. extract_intervals m = Inr ivs \<and> even (length (transitions m)) \<and>
         (\<forall>p\<in>set ivs. fst p < snd p \<and> snd p \<le> length m) \<and>
         sorted_wrt (\<lambda>p q. snd p < fst q) ivs \<and>
         (\<forall>i<length m. m ! i \<longleftrightarrow> (\<exists>p\<in>set ivs. fst p \<le> i \<and> i < snd p))"
proof -
  define n where "n = length m"
  define ws where "ws = False # m @ [False]"
  define P where "P = (\<lambda>i. ws ! Suc i \<noteq> ws ! i)"
  have E: "transitions m = filter P [0..<Suc n]"
    unfolding P_def ws_def n_def by (rule transitions_filter)
  have ws_len: "length ws = Suc (Suc n)" and ws0: "\<not> ws ! 0"
    by (simp_all add: ws_def n_def)
  have ws_last: "\<not> ws ! Suc n" by (simp add: ws_def n_def nth_append)
  have ws_nth: "ws ! Suc i = m ! i" if "i < n" for i
    using that by (simp add: ws_def n_def nth_append)
  have par: "ws ! j \<longleftrightarrow> odd (length (filter P [0..<j]))" if "j < Suc (Suc n)" for j
    unfolding P_def using that ws0 by (intro toggle_parity) (simp_all add: ws_len)
  have srt: "sorted_wrt (<) (transitions m)"
    unfolding E by (rule sorted_wrt_filter) (rule sorted_wrt_upt)
  have ev: "even (length (transitions m))"
    using par [of "Suc n"] ws_last by (simp only: E) simp
  have bound: "e \<le> n" if "e \<in> set (transitions m)" for e
  proof -
    from that have "e \<in> set [0..<Suc n]" unfolding E by (simp only: set_filter) blast
    then show ?thesis by (simp only: set_upt atLeastLessThan_iff) simp
  qed
  from reshape_pairs_sorted [OF srt ev] obtain ps where ps: "np_reshape_pairs (transitions m) = Inr ps"
    and mem: "\<forall>p\<in>set ps. fst p < snd p \<and> fst p \<in> set (transitions m) \<and> snd p \<in> set (transitions m)"
    and sep: "sorted_wrt (\<lambda>p q. snd p < fst q) ps"
    and cnt: "\<forall>j. odd (length (filter (\<lambda>x. x < j) (transitions m)))
                \<longleftrightarrow> (\<exists>p\<in>set ps. fst p < j \<and> j \<le> snd p)"
    by blast
  have cover: "m ! i \<longleftrightarrow> (\<exists>p\<in>set ps. fst p \<le> i \<and> i < snd p)" if i: "i < n" for i
  proof -
    have "m ! i \<longleftrightarrow> ws ! Suc i" using ws_nth [OF i] by simp
    also have "\<dots> \<longleftrightarrow> odd (length (filter P [0..<Suc i]))" using i by (intro par) simp
    also have "filter P [0..<Suc i] = filter (\<lambda>x. x < Suc i) (transitions m)"
      unfolding E using i by (intro filter_less_upt [symmetric]) simp
    also have "odd (length (filter (\<lambda>x. x < Suc i) (transitions m)))
        \<longleftrightarrow> (\<exists>p\<in>set ps. fst p < Suc i \<and> Suc i \<le> snd p)" using cnt by blast
    also have "\<dots> \<longleftrightarrow> (\<exists>p\<in>set ps. fst p \<le> i \<and> i < snd p)"
      by (simp add: less_Suc_eq_le Suc_le_eq)
    finally show ?thesis .
  qed
  show ?thesis
  proof (intro exI conjI)
    show "extract_intervals m = Inr ps" by (simp add: extract_intervals_def ps)
    show "even (length (transitions m))" by (rule ev)
    show "\<forall>p\<in>set ps. fst p < snd p \<and> snd p \<le> length m"
      using mem bound by (auto simp: n_def)
    show "sorted_wrt (\<lambda>p q. snd p < fst q) ps" by (rule sep)
    show "\<forall>i<length m. m ! i \<longleftrightarrow> (\<exists>p\<in>set ps. fst p \<le> i \<and> i < snd p)"
      using cover by (simp add: n_def)
  qed
qed

subsection \<open>Round trip\<close>

text \<open>
  Claim C4. Interval extraction round trip: for every boolean sequence the extraction
  returns, and the sequence of the same length that is \<^verbatim>\<open>True\<close> exactly at the indices
  covered by some extracted half-open interval \<open>[start, end)\<close> is the input itself.
\<close>

theorem extract_intervals_roundtrip:
  "\<exists>ivs. extract_intervals m = Inr ivs \<and>
         map (\<lambda>i. \<exists>p\<in>set ivs. fst p \<le> i \<and> i < snd p) [0..<length m] = m"
proof -
  from extract_intervals_char [of m] obtain ivs where ivs: "extract_intervals m = Inr ivs"
    and cover: "\<forall>i<length m. m ! i \<longleftrightarrow> (\<exists>p\<in>set ivs. fst p \<le> i \<and> i < snd p)"
    by blast
  have "map (\<lambda>i. \<exists>p\<in>set ivs. fst p \<le> i \<and> i < snd p) [0..<length m] = m"
    by (rule nth_equalityI) (use cover in simp_all)
  with ivs show ?thesis by blast
qed

theorem extract_intervals_roundtrip_witness:
  "extract_intervals [True, True, False, True, False, False, True] = Inr [(0, 2), (3, 4), (6, 7)] \<and>
   map (\<lambda>i. \<exists>p\<in>set [(0, 2), (3, 4), (6, 7)]. fst p \<le> i \<and> i < snd p)
     [0..<length [True, True, False, True, False, False, True]]
     = [True, True, False, True, False, False, True]"
proof -
  have e: "extract_intervals [True, True, False, True, False, False, True] = Inr [(0, 2), (3, 4), (6, 7)]"
    by code_simp
  from extract_intervals_roundtrip [of "[True, True, False, True, False, False, True]"]
  show ?thesis unfolding e by simp
qed

subsection \<open>Order and disjointness\<close>

text \<open>
  Claim C9. For every boolean sequence the extracted intervals are sorted ascending by
  their start, pairwise non-overlapping (an earlier interval ends no later than a later one
  starts, and any two different intervals share no index), and each interval has
  \<open>start < end\<close>.
\<close>

theorem extract_intervals_sorted_disjoint:
  "\<exists>ivs. extract_intervals m = Inr ivs \<and>
         sorted (map fst ivs) \<and>
         (\<forall>i j. i < j \<and> j < length ivs \<longrightarrow> snd (ivs ! i) \<le> fst (ivs ! j)) \<and>
         (\<forall>i j. i < length ivs \<and> j < length ivs \<and> i \<noteq> j \<longrightarrow>
                {fst (ivs ! i)..<snd (ivs ! i)} \<inter> {fst (ivs ! j)..<snd (ivs ! j)} = {}) \<and>
         (\<forall>p\<in>set ivs. fst p < snd p)"
proof -
  from extract_intervals_char [of m] obtain ivs where ivs: "extract_intervals m = Inr ivs"
    and pos: "\<forall>p\<in>set ivs. fst p < snd p \<and> snd p \<le> length m"
    and sep: "sorted_wrt (\<lambda>p q. snd p < fst q) ivs"
    by blast
  have before: "snd (ivs ! i) < fst (ivs ! j)" if "i < j" "j < length ivs" for i j
    using sep that by (simp add: sorted_wrt_iff_nth_less)
  have len: "fst (ivs ! i) < snd (ivs ! i)" if "i < length ivs" for i
    using pos that by simp
  have "sorted_wrt (\<lambda>p q. fst p \<le> fst q) ivs"
    unfolding sorted_wrt_iff_nth_less
  proof (intro allI impI)
    fix i j assume "i < j" "j < length ivs"
    then show "fst (ivs ! i) \<le> fst (ivs ! j)"
      using before [of i j] len [of i] by simp
  qed
  then have srt: "sorted (map fst ivs)" by (simp add: sorted_wrt_map)
  have disj: "{fst (ivs ! i)..<snd (ivs ! i)} \<inter> {fst (ivs ! j)..<snd (ivs ! j)} = {}"
    if "i < length ivs" "j < length ivs" "i \<noteq> j" for i j
  proof (cases "i < j")
    case True
    with before [of i j] that show ?thesis by auto
  next
    case False
    with that have "j < i" by simp
    with before [of j i] that show ?thesis by auto
  qed
  show ?thesis
  proof (intro exI conjI allI impI)
    show "extract_intervals m = Inr ivs" by (rule ivs)
    show "sorted (map fst ivs)" by (rule srt)
    show "snd (ivs ! i) \<le> fst (ivs ! j)" if "i < j \<and> j < length ivs" for i j
      using before [of i j] that by simp
    show "{fst (ivs ! i)..<snd (ivs ! i)} \<inter> {fst (ivs ! j)..<snd (ivs ! j)} = {}"
      if "i < length ivs \<and> j < length ivs \<and> i \<noteq> j" for i j
      using disj [of i j] that by simp
    show "\<forall>p\<in>set ivs. fst p < snd p" using pos by simp
  qed
qed

theorem extract_intervals_sorted_disjoint_witness:
  "extract_intervals [True, True, False, True, False, False, True] = Inr [(0, 2), (3, 4), (6, 7)] \<and>
   sorted (map fst [(0::nat, 2::nat), (3, 4), (6, 7)]) \<and>
   snd ([(0::nat, 2::nat), (3, 4), (6, 7)] ! 0) \<le> fst ([(0::nat, 2::nat), (3, 4), (6, 7)] ! 2) \<and>
   {fst ([(0::nat, 2::nat), (3, 4), (6, 7)] ! 1)..<snd ([(0::nat, 2::nat), (3, 4), (6, 7)] ! 1)}
     \<inter> {fst ([(0::nat, 2::nat), (3, 4), (6, 7)] ! 0)..<snd ([(0::nat, 2::nat), (3, 4), (6, 7)] ! 0)} = {}"
proof -
  have e: "extract_intervals [True, True, False, True, False, False, True] = Inr [(0, 2), (3, 4), (6, 7)]"
    by code_simp
  from extract_intervals_sorted_disjoint [of "[True, True, False, True, False, False, True]"]
  have "sorted (map fst [(0::nat, 2::nat), (3, 4), (6, 7)]) \<and>
     (\<forall>i j. i < j \<and> j < length [(0::nat, 2::nat), (3, 4), (6, 7)] \<longrightarrow>
        snd ([(0::nat, 2::nat), (3, 4), (6, 7)] ! i) \<le> fst ([(0::nat, 2::nat), (3, 4), (6, 7)] ! j)) \<and>
     (\<forall>i j. i < length [(0::nat, 2::nat), (3, 4), (6, 7)] \<and> j < length [(0::nat, 2::nat), (3, 4), (6, 7)] \<and> i \<noteq> j \<longrightarrow>
        {fst ([(0::nat, 2::nat), (3, 4), (6, 7)] ! i)..<snd ([(0::nat, 2::nat), (3, 4), (6, 7)] ! i)}
          \<inter> {fst ([(0::nat, 2::nat), (3, 4), (6, 7)] ! j)..<snd ([(0::nat, 2::nat), (3, 4), (6, 7)] ! j)} = {})"
    unfolding e by blast
  then have "sorted (map fst [(0::nat, 2::nat), (3, 4), (6, 7)])"
    and "snd ([(0::nat, 2::nat), (3, 4), (6, 7)] ! 0) \<le> fst ([(0::nat, 2::nat), (3, 4), (6, 7)] ! 2)"
    and "{fst ([(0::nat, 2::nat), (3, 4), (6, 7)] ! 1)..<snd ([(0::nat, 2::nat), (3, 4), (6, 7)] ! 1)}
     \<inter> {fst ([(0::nat, 2::nat), (3, 4), (6, 7)] ! 0)..<snd ([(0::nat, 2::nat), (3, 4), (6, 7)] ! 0)} = {}"
    by simp_all
  with e show ?thesis by blast
qed

section \<open>Properties of detect\<close>

subsection \<open>The candidate intervals lie within the aggregated trace\<close>

lemma fill_gap_negative: "k < 0 \<Longrightarrow> fill_gap a k = Inl ValueError"
  by (simp add: fill_gap_def np_ones_def)

lemma fill_gap_empty: "k \<noteq> 0 \<Longrightarrow> fill_gap [] k = Inl ValueError"
  by (simp add: fill_gap_def np_ones_def np_convolve_def as_num_def)

lemma fill_gap_Inr_length:
  assumes "fill_gap a k = Inr r"
  shows "length r = length a"
proof -
  consider "k = 0" | "k < 0" | "0 < k" "a = []" | "0 < k" "a \<noteq> []" by fastforce
  then show ?thesis
  proof cases
    case 1
    with assms show ?thesis by (simp add: fill_gap_def)
  next
    case 2
    with assms fill_gap_negative [of k a] show ?thesis by simp
  next
    case 3
    with assms fill_gap_empty [of k] show ?thesis by simp
  next
    case 4
    from fill_gap_char [OF 4] assms show ?thesis by auto
  qed
qed

lemma py_slice_within:
  assumes "s \<le> e" "e \<le> length xs"
  shows "py_slice xs (int s) (int e) = take (e - s) (drop s xs)"
  using assms by (simp add: py_slice_def Let_def min_def)

lemma take_drop_nths:
  assumes "s \<le> e" "e \<le> length xs"
  shows "take (e - s) (drop s xs) = map (\<lambda>i. xs ! i) [s..<e]"
proof (rule nth_equalityI)
  show l: "length (take (e - s) (drop s xs)) = length (map (\<lambda>i. xs ! i) [s..<e])"
    using assms by simp
  fix i assume "i < length (take (e - s) (drop s xs))"
  then have "i < e - s" using l by simp
  then show "take (e - s) (drop s xs) ! i = map (\<lambda>i. xs ! i) [s..<e] ! i"
    using assms by simp
qed

text \<open>
  Claim C10. In \<^verbatim>\<open>detect\<close>, on the path that reaches the interval extraction (the
  aggregation, the radius and \<^verbatim>\<open>fill_gap\<close> have returned), the list of transition indices
  has even length, so the reshape into pairs returns; and every pair satisfies
  \<open>0 \<le> start_frame < end_frame \<le> length db_agg\<close>, so the slice
  \<^verbatim>\<open>db_agg[start_frame:end_frame]\<close> handed to \<^verbatim>\<open>is_test_noise\<close> is exactly the entries at
  \<open>start_frame, \<dots>, end_frame - 1\<close>, with no clamping.
\<close>

theorem detect_intervals_in_bounds:
  assumes "aggregate audio db_thresh window_sec = Inr db_agg"
    and "gap_radius silence_sec window_sec = Inr k"
    and "fill_gap (map (\<lambda>x. x \<ge> agg_thresh) db_agg) k = Inr filled"
  shows "even (length (transitions filled)) \<and>
         (\<exists>interval_mat. extract_intervals filled = Inr interval_mat \<and>
            (\<forall>p\<in>set interval_mat. 0 \<le> fst p \<and> fst p < snd p \<and> snd p \<le> length db_agg \<and>
               py_slice db_agg (int (fst p)) (int (snd p)) = map (\<lambda>i. db_agg ! i) [fst p..<snd p]))"
proof -
  have len: "length filled = length db_agg"
    using fill_gap_Inr_length [OF assms(3)] by simp
  from extract_intervals_char [of filled] obtain ivs where ivs: "extract_intervals filled = Inr ivs"
    and ev: "even (length (transitions filled))"
    and pos: "\<forall>p\<in>set ivs. fst p < snd p \<and> snd p \<le> length filled"
    by blast
  have sl: "py_slice db_agg (int (fst p)) (int (snd p)) = map (\<lambda>i. db_agg ! i) [fst p..<snd p]"
    if "p \<in> set ivs" for p
  proof -
    from pos that len have b: "fst p \<le> snd p" "snd p \<le> length db_agg" by auto
    have "py_slice db_agg (int (fst p)) (int (snd p)) = take (snd p - fst p) (drop (fst p) db_agg)"
      by (rule py_slice_within [OF b])
    also have "\<dots> = map (\<lambda>i. db_agg ! i) [fst p..<snd p]"
      by (rule take_drop_nths [OF b])
    finally show ?thesis .
  qed
  show ?thesis using ev ivs pos sl len by auto
qed

theorem detect_intervals_in_bounds_witness:
  "aggregate \<lparr>y = [], sample_rate = 2, frame_length = 1, hop_length = 1, rms = [],
       db = [-80, -80, -80, 0, 0, 0, 0, -80, -80]\<rparr> (-25) 1 = Inr [0, 1/2, 1, 1/2, 0] \<and>
   gap_radius 2 1 = Inr 1 \<and>
   fill_gap (map (\<lambda>x. x \<ge> 2/100) [0, 1/2, 1, 1/2, 0 :: rat]) 1
     = Inr [False, True, True, True, False] \<and>
   even (length (transitions [False, True, True, True, False])) \<and>
   extract_intervals [False, True, True, True, False] = Inr [(1, 4)] \<and>
   py_slice [0, 1/2, 1, 1/2, 0 :: rat] (int 1) (int 4) = map (\<lambda>i. [0, 1/2, 1, 1/2, 0] ! i) [1..<4]"
proof -
  have h1: "aggregate \<lparr>y = [], sample_rate = 2, frame_length = 1, hop_length = 1, rms = [],
       db = [-80, -80, -80, 0, 0, 0, 0, -80, -80]\<rparr> (-25) 1 = Inr [0, 1/2, 1, 1/2, 0]"
    by code_simp
  have h2: "gap_radius 2 1 = Inr 1" by code_simp
  have h3: "fill_gap (map (\<lambda>x. x \<ge> 2/100) [0, 1/2, 1, 1/2, 0 :: rat]) 1
      = Inr [False, True, True, True, False]"
    by code_simp
  have e: "extract_intervals [False, True, True, True, False] = Inr [(1, 4)]" by code_simp
  from detect_intervals_in_bounds [OF h1 h2 h3]
  have "even (length (transitions [False, True, True, True, False]))"
    and "py_slice [0, 1/2, 1, 1/2, 0 :: rat] (int 1) (int 4) = map (\<lambda>i. [0, 1/2, 1, 1/2, 0] ! i) [1..<4]"
    unfolding e by simp_all
  with h1 h2 h3 e show ?thesis by blast
qed

section \<open>Properties of is_test_noise\<close>

text \<open>
  Claim C7. \<^verbatim>\<open>is_test_noise\<close> returns \<^verbatim>\<open>False\<close> on every slice with fewer than 4 samples;
  on a slice with at least 4 samples it returns \<^verbatim>\<open>True\<close> if and only if the share of the
  samples with a value \<open>\<ge> db_ratio_thresh\<close> is \<open>\<ge> sample_ratio_thresh\<close>. The share is
  stated over the set of the indices, independently of the filter the function counts
  with; the thresholds are arbitrary, the defaults 0.95 and 0.75 among them.
\<close>

theorem is_test_noise_contract:
  "(length s < 4 \<longrightarrow> \<not> is_test_noise s sample_ratio_thresh db_ratio_thresh) \<and>
   (4 \<le> length s \<longrightarrow>
      (is_test_noise s sample_ratio_thresh db_ratio_thresh \<longleftrightarrow>
         sample_ratio_thresh
           \<le> of_nat (card {i. i < length s \<and> db_ratio_thresh \<le> s ! i}) / of_nat (length s)))"
proof -
  have "length (filter (\<lambda>x. db_ratio_thresh \<le> x) s) = card {i. i < length s \<and> db_ratio_thresh \<le> s ! i}"
    by (rule length_filter_conv_card)
  then show ?thesis by (simp add: is_test_noise_def Let_def)
qed

theorem is_test_noise_contract_witness:
  "length [1, 1, 1 :: rat] < 4 \<and>
   \<not> is_test_noise [1, 1, 1] sample_ratio_thresh_default db_ratio_thresh_default \<and>
   4 \<le> length [1, 96/100, 1, 1/10 :: rat] \<and>
   is_test_noise [1, 96/100, 1, 1/10] sample_ratio_thresh_default db_ratio_thresh_default \<and>
   sample_ratio_thresh_default
     \<le> of_nat (card {i. i < length [1, 96/100, 1, 1/10 :: rat]
                       \<and> db_ratio_thresh_default \<le> [1, 96/100, 1, 1/10] ! i})
         / of_nat (length [1, 96/100, 1, 1/10 :: rat])"
proof -
  have short: "length [1, 1, 1 :: rat] < 4" by simp
  have long: "4 \<le> length [1, 96/100, 1, 1/10 :: rat]" by simp
  have noise: "is_test_noise [1, 96/100, 1, 1/10] sample_ratio_thresh_default db_ratio_thresh_default"
    by code_simp
  from is_test_noise_contract [of "[1, 1, 1]" sample_ratio_thresh_default db_ratio_thresh_default] short
  have a: "\<not> is_test_noise [1, 1, 1] sample_ratio_thresh_default db_ratio_thresh_default"
    by blast
  from is_test_noise_contract [of "[1, 96/100, 1, 1/10]" sample_ratio_thresh_default db_ratio_thresh_default]
    long noise
  have b: "sample_ratio_thresh_default
     \<le> of_nat (card {i. i < length [1, 96/100, 1, 1/10 :: rat]
                       \<and> db_ratio_thresh_default \<le> [1, 96/100, 1, 1/10] ! i})
         / of_nat (length [1, 96/100, 1, 1/10 :: rat])"
    by blast
  from short long noise a b show ?thesis by blast
qed

lemma is_test_noise_examples:
  "is_test_noise (replicate 10 (96/100)) sample_ratio_thresh_default db_ratio_thresh_default"
  "\<not> is_test_noise [1/10, 9/10, 1/10, 9/10, 1/10, 9/10, 1/10, 9/10, 1/10, 9/10]
       sample_ratio_thresh_default db_ratio_thresh_default"
  by code_simp+

section \<open>The window length and the radius of the gap filler\<close>





text \<open>
  Both expressions on inputs where the rounding of the float operations decides the result:
  \<open>8000 / 152 * 19\<close> is \<open>999.9999999999999\<close> as a double, \<open>0.6 / 0.1 / 2\<close> is
  \<open>2.9999999999999996\<close>, and \<open>30 / 0.1\<close> is \<open>300.0\<close>.
\<close>

lemma float_rounding_examples:
  "nearest_double (1 / 10) = 3602879701896397 / 36028797018963968"
  "window_length \<lparr>y = [], sample_rate = 8000, frame_length = 152, hop_length = 152,
       rms = [], db = []\<rparr> 19 = Inr 999"
  "gap_radius (6 / 10) (1 / 10) = Inr 2"
  "gap_radius 30 (1 / 10) = Inr 150"
  "gap_radius 30 (3602879701896397 / 36028797018963968) = Inr 150"
  "gap_radius 25 5 = Inr 2"
  "gap_radius 30 0 = Inl ZeroDivisionError"
  by code_simp+







section \<open>Malformed inputs\<close>

subsection \<open>The aggregation on a zero, a negative and a positive window length\<close>

lemma aggregate_zero:
  "window_length audio window_sec = Inr 0 \<Longrightarrow>
     aggregate audio db_thresh window_sec = Inl ZeroDivisionError"
  by (simp add: aggregate_def py_mod_def)

lemma aggregate_unfold:
  assumes "window_length audio window_sec = Inr wl" "wl \<noteq> 0"
  shows "aggregate audio db_thresh window_sec =
     (case np_pad (map (\<lambda>x. x \<ge> db_thresh) (db audio))
             ((wl - int (length (db audio)) mod wl) mod wl) of
        Inl e \<Rightarrow> Inl e
      | Inr b \<Rightarrow> if int (length b) mod wl \<noteq> 0 then Inl AssertionError
                 else (case np_reshape_rows b wl of Inl e \<Rightarrow> Inl e
                       | Inr rows \<Rightarrow> Inr (np_mean_rows rows)))"
  using assms by (simp add: aggregate_def py_mod_def Let_def split: sum.split)

lemma pad_zero_divides:
  fixes n wl :: int
  assumes "(wl - n mod wl) mod wl = 0"
  shows "n mod wl = 0"
proof -
  from assms have "wl dvd wl - n mod wl" by (simp add: dvd_eq_mod_eq_0)
  then have "wl dvd n mod wl" by (simp add: dvd_diff_right_iff)
  then have "(n mod wl) mod wl = 0" by (simp only: dvd_eq_mod_eq_0)
  then show ?thesis by simp
qed

lemma padded_length_divides:
  fixes n wl :: int
  shows "(n + (wl - n mod wl) mod wl) mod wl = 0"
proof -
  have "(n + (wl - n mod wl) mod wl) mod wl = (n mod wl + (wl - n mod wl) mod wl) mod wl"
    by (simp add: mod_simps)
  also have "\<dots> = (n mod wl + (wl - n mod wl)) mod wl"
    by (simp add: mod_simps)
  also have "\<dots> = 0" by simp
  finally show ?thesis .
qed

lemma aggregate_neg:
  assumes wl: "window_length audio window_sec = Inr wl" and neg: "wl < 0"
  shows "aggregate audio db_thresh window_sec = Inl ValueError"
proof -
  define n where "n = int (length (db audio))"
  define pad where "pad = (wl - n mod wl) mod wl"
  have nz: "wl \<noteq> 0" using neg by simp
  have le: "pad \<le> 0" unfolding pad_def using neg by (rule neg_mod_sign)
  show ?thesis
  proof (cases "pad < 0")
    case True
    then show ?thesis
      unfolding aggregate_unfold [OF wl nz] n_def [symmetric] pad_def [symmetric]
      by (simp add: np_pad_def)
  next
    case False
    with le have p0: "pad = 0" by simp
    then have "n mod wl = 0" unfolding pad_def by (rule pad_zero_divides)
    then show ?thesis
      unfolding aggregate_unfold [OF wl nz] n_def [symmetric] pad_def [symmetric] p0
      using neg by (simp add: np_pad_def np_reshape_rows_def n_def)
  qed
qed

lemma aggregate_pos:
  assumes wl: "window_length audio window_sec = Inr wl" and pos: "0 < wl"
  shows "\<exists>db_agg. aggregate audio db_thresh window_sec = Inr db_agg \<and>
           (db audio = [] \<longrightarrow> db_agg = [])"
proof -
  define n where "n = int (length (db audio))"
  define pad where "pad = (wl - n mod wl) mod wl"
  have nz: "wl \<noteq> 0" using pos by simp
  have ge: "0 \<le> pad" unfolding pad_def using pos by simp
  have dv: "(n + pad) mod wl = 0" unfolding pad_def by (rule padded_length_divides)
  have len: "int (length (map (\<lambda>x. x \<ge> db_thresh) (db audio) @ replicate (nat pad) False)) = n + pad"
    using ge by (simp add: n_def)
  have e: "db audio = [] \<Longrightarrow> pad = 0" by (simp add: pad_def n_def)
  show ?thesis
    unfolding aggregate_unfold [OF wl nz] n_def [symmetric] pad_def [symmetric]
    using ge pos dv len e
    by (auto simp: np_pad_def np_reshape_rows_def np_mean_rows_def simp del: length_map length_append)
qed

subsection \<open>What a malformed input raises\<close>

text \<open>
  Claim C3, as stated, fails: a malformed input does not always end in an invalid-argument
  error. \<^verbatim>\<open>detect\<close> checks none of its arguments; with \<open>window_sec = 0\<close> the window length
  is 0, and what is raised is the \<^verbatim>\<open>ZeroDivisionError\<close> of
  \<^verbatim>\<open>len(audio.db) % window_length\<close>, an arithmetic error and not a \<^verbatim>\<open>ValueError\<close>.
\<close>

theorem detect_zero_window_raises_zero_division:
  "window_length \<lparr>y = [], sample_rate = 22050, frame_length = 441, hop_length = 441,
       rms = [], db = [-30, -20, -10]\<rparr> 0 = Inr 0 \<and>
   detect \<lparr>y = [], sample_rate = 22050, frame_length = 441, hop_length = 441,
       rms = [], db = [-30, -20, -10]\<rparr> (-25) (2/100) 0 30 1 = Inl ZeroDivisionError \<and>
   ZeroDivisionError \<noteq> ValueError"
proof (intro conjI)
  show "window_length \<lparr>y = [], sample_rate = 22050, frame_length = 441, hop_length = 441,
       rms = [], db = [-30, -20, -10]\<rparr> 0 = Inr 0"
    by code_simp
  show "detect \<lparr>y = [], sample_rate = 22050, frame_length = 441, hop_length = 441,
       rms = [], db = [-30, -20, -10]\<rparr> (-25) (2/100) 0 30 1 = Inl ZeroDivisionError"
    by code_simp
  show "ZeroDivisionError \<noteq> ValueError" by simp
qed

text \<open>
  Claim C3, amended. Neither function validates its arguments; a malformed input is
  refused by the first operation that cannot take it:
  \<^item> a negative \<open>k\<close> makes \<^verbatim>\<open>fill_gap\<close> raise \<^verbatim>\<open>ValueError\<close> (from \<^verbatim>\<open>np.ones\<close>), whatever the
    input sequence;
  \<^item> a window length of 0 makes \<^verbatim>\<open>detect\<close> raise \<^verbatim>\<open>ZeroDivisionError\<close>;
  \<^item> a negative window length makes \<^verbatim>\<open>detect\<close> raise \<^verbatim>\<open>ValueError\<close> (from \<^verbatim>\<open>np.pad\<close> or from
    the reshape);
  \<^item> with a positive window length, a negative radius makes \<^verbatim>\<open>detect\<close> raise
    \<^verbatim>\<open>ValueError\<close>;
  \<^item> with a positive window length and a radius other than 0, an empty loudness trace makes
    \<^verbatim>\<open>detect\<close> raise \<^verbatim>\<open>ValueError\<close> (from \<^verbatim>\<open>np.convolve\<close>).
\<close>

theorem malformed_inputs_raise:
  "(k < 0 \<longrightarrow> fill_gap a k = Inl ValueError) \<and>
   (window_length audio window_sec = Inr 0 \<longrightarrow>
      detect audio db_thresh agg_thresh window_sec silence_sec buffer_sec = Inl ZeroDivisionError) \<and>
   (\<forall>wl. window_length audio window_sec = Inr wl \<and> wl < 0 \<longrightarrow>
      detect audio db_thresh agg_thresh window_sec silence_sec buffer_sec = Inl ValueError) \<and>
   (\<forall>wl r. window_length audio window_sec = Inr wl \<and> 0 < wl \<and>
           gap_radius silence_sec window_sec = Inr r \<and> r < 0 \<longrightarrow>
      detect audio db_thresh agg_thresh window_sec silence_sec buffer_sec = Inl ValueError) \<and>
   (\<forall>wl r. db audio = [] \<and> window_length audio window_sec = Inr wl \<and> 0 < wl \<and>
           gap_radius silence_sec window_sec = Inr r \<and> r \<noteq> 0 \<longrightarrow>
      detect audio db_thresh agg_thresh window_sec silence_sec buffer_sec = Inl ValueError)"
proof (intro conjI allI impI)
  assume "k < 0"
  then show "fill_gap a k = Inl ValueError" by (rule fill_gap_negative)
next
  assume "window_length audio window_sec = Inr 0"
  then have "aggregate audio db_thresh window_sec = Inl ZeroDivisionError"
    by (rule aggregate_zero)
  then show "detect audio db_thresh agg_thresh window_sec silence_sec buffer_sec
      = Inl ZeroDivisionError"
    by (simp add: detect_def)
next
  fix wl assume "window_length audio window_sec = Inr wl \<and> wl < 0"
  then have "aggregate audio db_thresh window_sec = Inl ValueError"
    using aggregate_neg by blast
  then show "detect audio db_thresh agg_thresh window_sec silence_sec buffer_sec = Inl ValueError"
    by (simp add: detect_def)
next
  fix wl r
  assume h: "window_length audio window_sec = Inr wl \<and> 0 < wl \<and>
           gap_radius silence_sec window_sec = Inr r \<and> r < 0"
  then obtain db_agg where "aggregate audio db_thresh window_sec = Inr db_agg"
    using aggregate_pos by blast
  moreover have "fill_gap (map (\<lambda>x. x \<ge> agg_thresh) db_agg) r = Inl ValueError"
    using h by (intro fill_gap_negative) simp
  ultimately show "detect audio db_thresh agg_thresh window_sec silence_sec buffer_sec = Inl ValueError"
    using h by (simp add: detect_def)
next
  fix wl r
  assume h: "db audio = [] \<and> window_length audio window_sec = Inr wl \<and> 0 < wl \<and>
           gap_radius silence_sec window_sec = Inr r \<and> r \<noteq> 0"
  then have "aggregate audio db_thresh window_sec = Inr []"
    using aggregate_pos [of audio window_sec wl db_thresh] by auto
  moreover have "fill_gap [] r = Inl ValueError"
    using h by (intro fill_gap_empty) simp
  ultimately show "detect audio db_thresh agg_thresh window_sec silence_sec buffer_sec = Inl ValueError"
    using h by (simp add: detect_def)
qed


theorem malformed_inputs_raise_witness:
  "(- 1 :: int) < 0 \<and> fill_gap [True, False] (- 1) = Inl ValueError \<and>
   window_length \<lparr>y = [], sample_rate = 22050, frame_length = 441, hop_length = 441,
       rms = [], db = [-30, -20, -10]\<rparr> 0 = Inr 0 \<and>
   detect \<lparr>y = [], sample_rate = 22050, frame_length = 441, hop_length = 441,
       rms = [], db = [-30, -20, -10]\<rparr> (-25) (2/100) 0 30 1 = Inl ZeroDivisionError \<and>
   window_length \<lparr>y = [], sample_rate = 22050, frame_length = 441, hop_length = 441,
       rms = [], db = [-30, -20, -10]\<rparr> (- 5) = Inr (- 250) \<and>
   detect \<lparr>y = [], sample_rate = 22050, frame_length = 441, hop_length = 441,
       rms = [], db = [-30, -20, -10]\<rparr> (-25) (2/100) (- 5) 30 1 = Inl ValueError \<and>
   window_length \<lparr>y = [], sample_rate = 22050, frame_length = 441, hop_length = 441,
       rms = [], db = [-30, -20, -10]\<rparr> 5 = Inr 250 \<and> gap_radius (- 30) 5 = Inr (- 3) \<and>
   detect \<lparr>y = [], sample_rate = 22050, frame_length = 441, hop_length = 441,
       rms = [], db = [-30, -20, -10]\<rparr> (-25) (2/100) 5 (- 30) 1 = Inl ValueError \<and>
   db \<lparr>y = [], sample_rate = 22050, frame_length = 441, hop_length = 441,
       rms = [], db = []\<rparr> = [] \<and>
   window_length \<lparr>y = [], sample_rate = 22050, frame_length = 441, hop_length = 441,
       rms = [], db = []\<rparr> 5 = Inr 250 \<and> gap_radius 30 5 = Inr 3 \<and>
   detect \<lparr>y = [], sample_rate = 22050, frame_length = 441, hop_length = 441,
       rms = [], db = []\<rparr> (-25) (2/100) 5 30 1 = Inl ValueError"
proof -
  have w0: "window_length \<lparr>y = [], sample_rate = 22050, frame_length = 441, hop_length = 441,
       rms = [], db = [-30, -20, -10]\<rparr> 0 = Inr 0" by code_simp
  have wn: "window_length \<lparr>y = [], sample_rate = 22050, frame_length = 441, hop_length = 441,
       rms = [], db = [-30, -20, -10]\<rparr> (- 5) = Inr (- 250)" by code_simp
  have wp: "window_length \<lparr>y = [], sample_rate = 22050, frame_length = 441, hop_length = 441,
       rms = [], db = [-30, -20, -10]\<rparr> 5 = Inr 250" by code_simp
  have we: "window_length \<lparr>y = [], sample_rate = 22050, frame_length = 441, hop_length = 441,
       rms = [], db = []\<rparr> 5 = Inr 250" by code_simp
  have gn: "gap_radius (- 30) 5 = Inr (- 3)" by code_simp
  have gp: "gap_radius 30 5 = Inr 3" by code_simp
  have de: "db \<lparr>y = [], sample_rate = 22050, frame_length = 441, hop_length = 441,
       rms = [], db = []\<rparr> = []" by simp
  have a: "fill_gap [True, False] (- 1) = Inl ValueError"
    using malformed_inputs_raise [of "- 1" "[True, False]"] by simp
  have b: "detect \<lparr>y = [], sample_rate = 22050, frame_length = 441, hop_length = 441,
       rms = [], db = [-30, -20, -10]\<rparr> (-25) (2/100) 0 30 1 = Inl ZeroDivisionError"
    using malformed_inputs_raise [of _ _ "\<lparr>y = [], sample_rate = 22050, frame_length = 441, hop_length = 441,
       rms = [], db = [-30, -20, -10]\<rparr>" 0 "-25" "2/100" 30 1] w0 by blast
  have c: "detect \<lparr>y = [], sample_rate = 22050, frame_length = 441, hop_length = 441,
       rms = [], db = [-30, -20, -10]\<rparr> (-25) (2/100) (- 5) 30 1 = Inl ValueError"
    using malformed_inputs_raise [of _ _ "\<lparr>y = [], sample_rate = 22050, frame_length = 441, hop_length = 441,
       rms = [], db = [-30, -20, -10]\<rparr>" "- 5" "-25" "2/100" 30 1] wn by force
  have d: "detect \<lparr>y = [], sample_rate = 22050, frame_length = 441, hop_length = 441,
       rms = [], db = [-30, -20, -10]\<rparr> (-25) (2/100) 5 (- 30) 1 = Inl ValueError"
    using malformed_inputs_raise [of _ _ "\<lparr>y = [], sample_rate = 22050, frame_length = 441, hop_length = 441,
       rms = [], db = [-30, -20, -10]\<rparr>" 5 "-25" "2/100" "- 30" 1] wp gn by force
  have e: "detect \<lparr>y = [], sample_rate = 22050, frame_length = 441, hop_length = 441,
       rms = [], db = []\<rparr> (-25) (2/100) 5 30 1 = Inl ValueError"
    using malformed_inputs_raise [of _ _ "\<lparr>y = [], sample_rate = 22050, frame_length = 441, hop_length = 441,
       rms = [], db = []\<rparr>" 5 "-25" "2/100" 30 1] we gp de by force
  from w0 wn wp we gn gp de a b c d e show ?thesis by simp
qed

section \<open>An all-silent trace\<close>

text \<open>
  Claim C6 says that an all-silent loudness trace is not an error: \<^verbatim>\<open>detect\<close> returns an
  empty result. The interval extraction does return no interval on a sequence that is
  \<^verbatim>\<open>False\<close> throughout (\<open>extract_intervals_all_false\<close> below), but \<^verbatim>\<open>detect\<close> then builds a
  data frame with no row, and the assignment of the column \<^verbatim>\<open>is_test_noise\<close> raises
  \<^verbatim>\<open>ValueError\<close>. At ten seconds of silence (500 frames of -80 dB at 22050 Hz with the hop
  length 441) and the default parameters:
\<close>

theorem detect_all_silent_raises:
  "detect \<lparr>y = [], sample_rate = 22050, frame_length = 441, hop_length = 441, rms = [],
       db = replicate 500 (- 80)\<rparr> (- 25) (2/100) 5 30 1 = Inl ValueError"
  by code_simp

text \<open>
  The same holds whenever no candidate interval is found, whatever the input: the
  extraction returns the empty list and the data frame step raises.
\<close>

lemma extract_intervals_all_false:
  assumes "\<forall>b\<in>set m. \<not> b"
  shows "extract_intervals m = Inr []"
proof -
  from extract_intervals_char [of m] obtain ivs where ivs: "extract_intervals m = Inr ivs"
    and pos: "\<forall>p\<in>set ivs. fst p < snd p \<and> snd p \<le> length m"
    and cover: "\<forall>i<length m. m ! i \<longleftrightarrow> (\<exists>p\<in>set ivs. fst p \<le> i \<and> i < snd p)"
    by blast
  have "ivs = []"
  proof (rule ccontr)
    assume "ivs \<noteq> []"
    then obtain p where p: "p \<in> set ivs" by (cases ivs) auto
    with pos have lt: "fst p < snd p" "fst p < length m" by auto
    with cover p have "m ! fst p" by blast
    moreover have "m ! fst p \<in> set m" using lt(2) by simp
    ultimately show False using assms by blast
  qed
  with ivs show ?thesis by simp
qed

lemma fill_gap_Inl: "fill_gap a k = Inl e \<Longrightarrow> e = ValueError"
  by (auto simp: fill_gap_def np_ones_def np_convolve_def Let_def split: if_splits sum.splits)

lemma fill_gap_all_false:
  assumes "fill_gap a k = Inr r" "\<forall>b\<in>set a. \<not> b"
  shows "\<forall>b\<in>set r. \<not> b"
proof -
  consider "k = 0" | "k < 0" | "0 < k" "a = []" | "0 < k" "a \<noteq> []" by fastforce
  then show ?thesis
  proof cases
    case 1
    with assms show ?thesis by (simp add: fill_gap_def)
  next
    case 2
    with assms(1) fill_gap_negative [of k a] show ?thesis by simp
  next
    case 3
    with assms(1) fill_gap_empty [of k] show ?thesis by simp
  next
    case 4
    from fill_gap_char [OF 4] assms(1)
    have len: "length r = length a"
      and nth: "\<forall>p<length a. r ! p \<longleftrightarrow>
         (\<forall>j\<in>{p..p + 2 * nat k}. \<exists>l<length a. l \<le> j \<and> j \<le> l + 2 * nat k \<and> a ! l)"
      by auto
    have "\<not> r ! p" if "p < length r" for p
    proof
      assume "r ! p"
      with nth that len have "\<exists>l<length a. l \<le> p \<and> p \<le> l + 2 * nat k \<and> a ! l" by auto
      then obtain l where "l < length a" "a ! l" by blast
      then show False using assms(2) nth_mem by blast
    qed
    then show ?thesis by (auto simp: in_set_conv_nth)
  qed
qed

lemma detect_no_candidate_raises:
  assumes "aggregate audio db_thresh window_sec = Inr db_agg"
    and "gap_radius silence_sec window_sec = Inr k"
    and "fill_gap (map (\<lambda>x. x \<ge> agg_thresh) db_agg) k = Inr filled"
    and "extract_intervals filled = Inr []"
  shows "detect audio db_thresh agg_thresh window_sec silence_sec buffer_sec = Inl ValueError"
  using assms by (simp add: detect_def drop_test_noise_def)

text \<open>
  So every all-silent trace makes \<^verbatim>\<open>detect\<close> raise: with a positive window length, a
  radius that was computed and a positive \<open>agg_thresh\<close>, a trace that is below \<open>db_thresh\<close>
  throughout aggregates to zeros, the window mask is \<^verbatim>\<open>False\<close> throughout, and no candidate
  interval is found.
\<close>

lemma aggregate_silent:
  assumes wl: "window_length audio window_sec = Inr wl" and pos: "0 < wl"
    and silent: "\<forall>x\<in>set (db audio). x < db_thresh"
  shows "\<exists>db_agg. aggregate audio db_thresh window_sec = Inr db_agg \<and> (\<forall>v\<in>set db_agg. v = 0)"
proof -
  define n where "n = int (length (db audio))"
  define pad where "pad = (wl - n mod wl) mod wl"
  define b where "b = map (\<lambda>x. x \<ge> db_thresh) (db audio) @ replicate (nat pad) False"
  have nz: "wl \<noteq> 0" using pos by simp
  have ge: "0 \<le> pad" unfolding pad_def using pos by simp
  have dv: "(n + pad) mod wl = 0" unfolding pad_def by (rule padded_length_divides)
  have len: "int (length b) = n + pad" using ge by (simp add: b_def n_def)
  have quiet: "\<forall>c\<in>set b. \<not> c" using silent by (auto simp: b_def)
  have pd: "np_pad (map (\<lambda>x. x \<ge> db_thresh) (db audio)) pad = Inr b"
    using ge by (simp add: np_pad_def b_def)
  have row: "length (filter (\<lambda>c. c) (take w (drop d b))) = 0" for w d
  proof -
    have "set (take w (drop d b)) \<subseteq> set b"
      by (meson set_take_subset set_drop_subset subset_trans)
    with quiet show ?thesis by (auto simp: filter_empty_conv)
  qed
  define rows where "rows = map (\<lambda>r. take (nat wl) (drop (r * nat wl) b)) [0..<length b div nat wl]"
  have rs: "np_reshape_rows b wl = Inr rows"
    using pos dv len by (simp add: np_reshape_rows_def rows_def)
  have zero: "\<forall>v\<in>set (np_mean_rows rows). v = 0"
    using row by (auto simp: np_mean_rows_def rows_def)
  have "aggregate audio db_thresh window_sec = Inr (np_mean_rows rows)"
    unfolding aggregate_unfold [OF wl nz] n_def [symmetric] pad_def [symmetric] pd
    using dv len rs by simp
  with zero show ?thesis by blast
qed

lemma detect_all_silent_general:
  assumes wl: "window_length audio window_sec = Inr wl" and pos: "0 < wl"
    and k: "gap_radius silence_sec window_sec = Inr k"
    and silent: "\<forall>x\<in>set (db audio). x < db_thresh"
    and thr: "0 < agg_thresh"
  shows "detect audio db_thresh agg_thresh window_sec silence_sec buffer_sec = Inl ValueError"
proof -
  from aggregate_silent [OF wl pos silent] obtain db_agg
    where agg: "aggregate audio db_thresh window_sec = Inr db_agg"
      and zero: "\<forall>v\<in>set db_agg. v = 0" by blast
  have quiet: "\<forall>c\<in>set (map (\<lambda>x. x \<ge> agg_thresh) db_agg). \<not> c"
    using zero thr by auto
  show ?thesis
  proof (cases "fill_gap (map (\<lambda>x. x \<ge> agg_thresh) db_agg) k")
    case (Inl e)
    then have "e = ValueError" by (rule fill_gap_Inl)
    with agg k Inl show ?thesis by (simp add: detect_def)
  next
    case fg: (Inr filled)
    from fill_gap_all_false [OF fg quiet] have "extract_intervals filled = Inr []"
      by (rule extract_intervals_all_false)
    from detect_no_candidate_raises [OF agg k fg this] show ?thesis .
  qed
qed

end
